theory Spec2Isabelle
  imports Complex_Main
begin

section \<open>Data model (app/models.py, app/utils.py)\<close>

text \<open>
  Python's \<open>Decimal\<close> values are modelled as exact rationals. The comparisons,
  \<open>min\<close>, additions, subtractions and products the engine performs are exact on decimals
  as long as the results fit the context precision of 28 significant digits, which is the
  range this development covers; \<open>quantize\<close>, which raises beyond that precision, is
  modelled with its failure. Python objects that are shared by reference (an order sitting
  in a level queue, a level sitting in a sorted dict) are modelled by the place that
  holds them: mutating the object is updating that place.
\<close>

type_synonym decimal = rat

datatype Side = buy | sell

datatype OrderType = market | limit | ioc | fok | stop | stop_limit | take_profit

datatype error = AssertionError | KeyError | TypeError | InvalidOperation

record Order =
  order_id :: string
  symbol :: string
  side :: Side
  type :: OrderType
  quantity :: decimal
  remaining :: decimal
  price :: "decimal option"
  timestamp :: string
  client_order_id :: "string option"
  stop_price :: "decimal option"
  take_profit_price :: "decimal option"
  user_id :: "string option"

record Trade =
  trade_id :: string
  trade_symbol :: string
  trade_price :: decimal
  trade_quantity :: decimal
  aggressor_side :: Side
  maker_order_id :: string
  taker_order_id :: string
  trade_timestamp :: string
  maker_fee :: decimal
  taker_fee :: decimal

record OrderRequest =
  req_symbol :: string
  req_side :: Side
  req_type :: OrderType
  req_quantity :: decimal
  req_price :: "decimal option"
  req_client_order_id :: "string option"
  req_stop_price :: "decimal option"
  req_take_profit_price :: "decimal option"

text \<open>\<open>quantize_8\<close>: round to 8 fractional digits, ties away from zero
  (the context rounding is \<open>ROUND_HALF_UP\<close>). \<open>Decimal.quantize\<close> raises
  \<open>InvalidOperation\<close> when the rounded coefficient has more digits than the context
  precision of 28, that is when it reaches \<open>10 ^ 28\<close>.\<close>

definition quantizable :: "decimal \<Rightarrow> bool" where
  "quantizable d = (\<lfloor>\<bar>d\<bar> * 10 ^ 8 + 1 / 2\<rfloor> < 10 ^ 28)"

definition quantize_8 :: "decimal \<Rightarrow> error + decimal" where
  "quantize_8 d =
     (if quantizable d then
        Inr (if 0 \<le> d then of_int \<lfloor>d * 10 ^ 8 + 1 / 2\<rfloor> / 10 ^ 8
             else - (of_int \<lfloor>- d * 10 ^ 8 + 1 / 2\<rfloor> / 10 ^ 8))
      else Inl InvalidOperation)"

text \<open>\<open>next_id\<close>: the module-level counter is passed in; the caller stores its
  successor.\<close>

definition digit_char :: "nat \<Rightarrow> char" where
  "digit_char d = ''0123456789'' ! d"

fun string_of_nat :: "nat \<Rightarrow> string" where
  "string_of_nat n =
     (if n < 10 then [digit_char n]
      else string_of_nat (n div 10) @ [digit_char (n mod 10)])"

declare string_of_nat.simps [simp del]

definition next_id :: "string \<Rightarrow> nat \<Rightarrow> string" where
  "next_id prefix n = prefix @ ''_'' @ string_of_nat n"

section \<open>Dictionaries\<close>

text \<open>A Python \<open>dict\<close> is an association list in insertion order with one entry per
  key; a \<open>SortedDict\<close> is an association list kept in ascending key order.\<close>

definition dict_get :: "('k \<times> 'v) list \<Rightarrow> 'k \<Rightarrow> 'v option" where
  "dict_get d k = map_of d k"

fun dict_set :: "('k \<times> 'v) list \<Rightarrow> 'k \<Rightarrow> 'v \<Rightarrow> ('k \<times> 'v) list" where
  "dict_set [] k v = [(k, v)]"
| "dict_set ((k', v') # d) k v =
     (if k' = k then (k, v) # d else (k', v') # dict_set d k v)"

definition dict_pop :: "('k \<times> 'v) list \<Rightarrow> 'k \<Rightarrow> ('k \<times> 'v) list" where
  "dict_pop d k = filter (\<lambda>kv. fst kv \<noteq> k) d"

definition sd_get :: "(decimal \<times> 'v) list \<Rightarrow> decimal \<Rightarrow> 'v option" where
  "sd_get d k = map_of d k"

fun sd_set :: "(decimal \<times> 'v) list \<Rightarrow> decimal \<Rightarrow> 'v \<Rightarrow> (decimal \<times> 'v) list" where
  "sd_set [] k v = [(k, v)]"
| "sd_set ((k', v') # d) k v =
     (if k < k' then (k, v) # (k', v') # d
      else if k = k' then (k, v) # d
      else (k', v') # sd_set d k v)"

definition sd_pop :: "(decimal \<times> 'v) list \<Rightarrow> decimal \<Rightarrow> (decimal \<times> 'v) list" where
  "sd_pop d k = filter (\<lambda>kv. fst kv \<noteq> k) d"

text \<open>\<open>del d[k]\<close> raises \<open>KeyError\<close> on a missing key.\<close>

definition sd_del :: "(decimal \<times> 'v) list \<Rightarrow> decimal \<Rightarrow> (decimal \<times> 'v) list option" where
  "sd_del d k = (if k \<in> fst ` set d then Some (sd_pop d k) else None)"

text \<open>In-place mutation of the value object stored under key \<open>k\<close>.\<close>

definition sd_update :: "(decimal \<times> 'v) list \<Rightarrow> decimal \<Rightarrow> ('v \<Rightarrow> 'v) \<Rightarrow> (decimal \<times> 'v) list" where
  "sd_update d k f = map (\<lambda>kv. if fst kv = k then (fst kv, f (snd kv)) else kv) d"

section \<open>Order book (app/orderbook.py)\<close>

record PriceLevel =
  level_price :: decimal
  queue :: "Order list"

definition total_quantity :: "PriceLevel \<Rightarrow> decimal" where
  "total_quantity l = foldl (\<lambda>qty od. qty + remaining od) 0 (queue l)"

record OrderBook =
  book_symbol :: string
  bids :: "(decimal \<times> PriceLevel) list"
  asks :: "(decimal \<times> PriceLevel) list"
  order_index :: "(string \<times> (Side \<times> decimal)) list"
  last_trade_price :: "decimal option"

definition new_book :: "string \<Rightarrow> OrderBook" where
  "new_book s = \<lparr>book_symbol = s, bids = [], asks = [], order_index = [],
                 last_trade_price = None\<rparr>"

definition get_side_book :: "OrderBook \<Rightarrow> Side \<Rightarrow> (decimal \<times> PriceLevel) list" where
  "get_side_book b s = (if s = buy then bids b else asks b)"

text \<open>Writing back the side dictionary that \<open>_get_side_book\<close> returned by reference.\<close>

definition set_side_book :: "OrderBook \<Rightarrow> Side \<Rightarrow> (decimal \<times> PriceLevel) list \<Rightarrow> OrderBook" where
  "set_side_book b s d = (if s = buy then b\<lparr>bids := d\<rparr> else b\<lparr>asks := d\<rparr>)"

text \<open>\<open>_best_bid\<close> and \<open>_best_ask\<close> return the level object; the model returns it
  with the key it is stored under, which is where later mutations of it land.\<close>

definition best_bid :: "OrderBook \<Rightarrow> (decimal \<times> PriceLevel) option" where
  "best_bid b = (if bids b = [] then None else Some (last (bids b)))"

definition best_ask :: "OrderBook \<Rightarrow> (decimal \<times> PriceLevel) option" where
  "best_ask b = (if asks b = [] then None else Some (hd (asks b)))"

definition best_prices :: "OrderBook \<Rightarrow> decimal option \<times> decimal option" where
  "best_prices b =
     (if bids b = [] then None else Some (fst (last (bids b))),
      if asks b = [] then None else Some (fst (hd (asks b))))"

definition add_limit :: "OrderBook \<Rightarrow> Order \<Rightarrow> error + OrderBook" where
  "add_limit b order =
     (case price order of
        None \<Rightarrow> Inl AssertionError
      | Some p \<Rightarrow>
          let book = get_side_book b (side order);
              level = (case sd_get book p of
                         None \<Rightarrow> \<lparr>level_price = p, queue = []\<rparr>
                       | Some l \<Rightarrow> l);
              book' = sd_set book p (level\<lparr>queue := queue level @ [order]\<rparr>)
          in Inr ((set_side_book b (side order) book')
                   \<lparr>order_index := dict_set (order_index b) (order_id order) (side order, p)\<rparr>))"

definition remove_order :: "OrderBook \<Rightarrow> string \<Rightarrow> OrderBook \<times> Order option" where
  "remove_order b oid =
     (case dict_get (order_index b) oid of
        None \<Rightarrow> (b, None)
      | Some (sd, p) \<Rightarrow>
          let book = get_side_book b sd in
          (case sd_get book p of
             None \<Rightarrow> (b\<lparr>order_index := dict_pop (order_index b) oid\<rparr>, None)
           | Some level \<Rightarrow>
               let hits = filter (\<lambda>od. order_id od = oid) (queue level);
                   removed = (if hits = [] then None else Some (last hits));
                   new_queue = filter (\<lambda>od. order_id od \<noteq> oid) (queue level);
                   book' = (if new_queue = [] then sd_pop book p
                            else sd_update book p (\<lambda>l. l\<lparr>queue := new_queue\<rparr>))
               in ((set_side_book b sd book')\<lparr>order_index := dict_pop (order_index b) oid\<rparr>,
                   removed)))"

definition crossable :: "OrderBook \<Rightarrow> Order \<Rightarrow> bool" where
  "crossable b incoming =
     (let (bid, ask) = best_prices b in
      if type incoming = market then
        (if side incoming = buy then ask \<noteq> None else bid \<noteq> None)
      else
        (case price incoming of
           None \<Rightarrow> False
         | Some p \<Rightarrow>
             if side incoming = buy then (case ask of None \<Rightarrow> False | Some a \<Rightarrow> a \<le> p)
             else (case bid of None \<Rightarrow> False | Some bd \<Rightarrow> p \<le> bd)))"

type_synonym RawTrade = "Order \<times> Order \<times> decimal \<times> decimal"

definition opposite :: "Side \<Rightarrow> Side" where
  "opposite s = (if s = buy then sell else buy)"

definition fill_head :: "decimal \<Rightarrow> PriceLevel \<Rightarrow> PriceLevel" where
  "fill_head qty l =
     (case queue l of
        [] \<Rightarrow> l
      | m # r \<Rightarrow> l\<lparr>queue := m\<lparr>remaining := remaining m - qty\<rparr> # r\<rparr>)"

definition popleft :: "PriceLevel \<Rightarrow> PriceLevel" where
  "popleft l = l\<lparr>queue := tl (queue l)\<rparr>"

definition sd_size :: "(decimal \<times> PriceLevel) list \<Rightarrow> nat" where
  "sd_size d = sum_list (map (\<lambda>kv. Suc (length (queue (snd kv)))) d)"

definition book_size :: "OrderBook \<Rightarrow> nat" where
  "book_size b = sd_size (bids b) + sd_size (asks b)"

subsection \<open>Size of a book, for the termination of the matching loop\<close>

lemma sd_size_pop_le: "sd_size (sd_pop d k) \<le> sd_size d"
  by (induction d) (auto simp: sd_size_def sd_pop_def)

lemma sd_size_pop_less: "k \<in> fst ` set d \<Longrightarrow> sd_size (sd_pop d k) < sd_size d"
proof (induction d)
  case Nil then show ?case by simp
next
  case (Cons a d)
  show ?case
  proof (cases "fst a = k")
    case True
    have "sd_size (sd_pop d k) \<le> sd_size d" by (rule sd_size_pop_le)
    with True show ?thesis by (simp add: sd_size_def sd_pop_def)
  next
    case False
    with Cons show ?thesis by (auto simp: sd_size_def sd_pop_def)
  qed
qed

lemma sd_size_update_le:
  "(\<And>l. length (queue (f l)) \<le> length (queue l)) \<Longrightarrow> sd_size (sd_update d k f) \<le> sd_size d"
proof (induction d)
  case Nil then show ?case by (simp add: sd_size_def sd_update_def)
next
  case (Cons a d)
  have "length (queue (f (snd a))) \<le> length (queue (snd a))" by (rule Cons.prems)
  moreover have "sd_size (sd_update d k f) \<le> sd_size d" using Cons by blast
  ultimately show ?case by (simp add: sd_size_def sd_update_def)
qed

lemma sd_size_update_less:
  assumes le: "\<And>l. length (queue (f l)) \<le> length (queue l)"
    and mem: "(k, l0) \<in> set d" and less: "length (queue (f l0)) < length (queue l0)"
  shows "sd_size (sd_update d k f) < sd_size d"
  using mem
proof (induction d)
  case Nil then show ?case by simp
next
  case (Cons a d)
  have tl_le: "sd_size (sd_update d k f) \<le> sd_size d" by (rule sd_size_update_le [OF le])
  have hd_le: "length (queue (f (snd a))) \<le> length (queue (snd a))" by (rule le)
  show ?case
  proof (cases "a = (k, l0)")
    case True
    with less tl_le show ?thesis by (simp add: sd_size_def sd_update_def)
  next
    case False
    with Cons have "sd_size (sd_update d k f) < sd_size d" by simp
    with hd_le show ?thesis by (simp add: sd_size_def sd_update_def)
  qed
qed

lemma sd_size_fill_head [simp]: "sd_size (sd_update d k (fill_head q)) = sd_size d"
  by (induction d) (auto simp: sd_size_def sd_update_def fill_head_def split: list.splits)

lemma sd_update_update: "sd_update (sd_update d k f) k g = sd_update d k (g \<circ> f)"
  by (induction d) (auto simp: sd_update_def)

lemma sd_size_pop_mem: "(k, l) \<in> set d \<Longrightarrow> sd_size (sd_pop d k) < sd_size d"
  by (rule sd_size_pop_less) force

lemma sd_size_fill_pop:
  assumes "(k, l0) \<in> set d" and "queue l0 \<noteq> []"
  shows "sd_size (sd_update (sd_update d k (fill_head q)) k popleft) < sd_size d"
proof -
  have le: "\<And>l. length (queue ((popleft \<circ> fill_head q) l)) \<le> length (queue l)"
    by (simp add: popleft_def fill_head_def split: list.splits)
  have less: "length (queue ((popleft \<circ> fill_head q) l0)) < length (queue l0)"
    using assms(2) by (simp add: popleft_def fill_head_def split: list.splits)
  show ?thesis
    unfolding sd_update_update by (rule sd_size_update_less [OF le assms(1) less])
qed

lemma hd_mem: "d \<noteq> [] \<Longrightarrow> hd d = x \<Longrightarrow> x \<in> set d"
  by auto

lemma last_mem: "d \<noteq> [] \<Longrightarrow> last d = x \<Longrightarrow> x \<in> set d"
  by auto

definition match_measure :: "OrderBook \<times> Order \<times> RawTrade list \<Rightarrow> nat" where
  "match_measure x = (case x of (b, incoming, trades) \<Rightarrow>
      2 * book_size b + (if 0 < remaining incoming then 1 else 0))"

lemma best_opp_mem:
  "(if side incoming = buy then best_ask b else best_bid b) = Some (k, best) \<Longrightarrow>
   (k, best) \<in> set (get_side_book b (opposite (side incoming)))"
  by (auto simp: best_ask_def best_bid_def get_side_book_def opposite_def
      split: if_splits dest: hd_mem last_mem)

lemma book_size_set_side:
  "book_size (set_side_book b s d) + sd_size (get_side_book b s) = book_size b + sd_size d"
  by (simp add: book_size_def set_side_book_def get_side_book_def)

lemma get_set_side [simp]: "get_side_book (set_side_book b s d) s = d"
  by (simp add: set_side_book_def get_side_book_def)

lemma get_side_last_trade [simp]: "get_side_book (b\<lparr>last_trade_price := x\<rparr>) s = get_side_book b s"
  by (simp add: get_side_book_def)

lemma get_side_order_index [simp]: "get_side_book (b\<lparr>order_index := x\<rparr>) s = get_side_book b s"
  by (simp add: get_side_book_def)

lemma set_set_side [simp]: "set_side_book (set_side_book b s d) s d' = set_side_book b s d'"
  by (simp add: set_side_book_def)

lemma set_side_last_trade: "set_side_book (b\<lparr>last_trade_price := x\<rparr>) s d = (set_side_book b s d)\<lparr>last_trade_price := x\<rparr>"
  by (simp add: set_side_book_def)

lemma set_side_order_index: "set_side_book (b\<lparr>order_index := x\<rparr>) s d = (set_side_book b s d)\<lparr>order_index := x\<rparr>"
  by (simp add: set_side_book_def)

lemma book_size_last_trade [simp]: "book_size (b\<lparr>last_trade_price := x\<rparr>) = book_size b"
  by (simp add: book_size_def)

lemma book_size_order_index [simp]: "book_size (b\<lparr>order_index := x\<rparr>) = book_size b"
  by (simp add: book_size_def)

lemma book_size_set_less:
  "sd_size d < sd_size (get_side_book b s) \<Longrightarrow> book_size (set_side_book b s d) < book_size b"
  using book_size_set_side [of b s d] by simp

lemma book_size_set_le:
  "sd_size d \<le> sd_size (get_side_book b s) \<Longrightarrow> book_size (set_side_book b s d) \<le> book_size b"
  using book_size_set_side [of b s d] by simp

lemma min_residual: "\<not> rm - min ri rm \<le> 0 \<Longrightarrow> ri - min ri rm = (0::rat)"
  by (simp add: min_def split: if_splits)

text \<open>The \<open>while\<close> loop of \<open>OrderBook.match\<close>. The state is the book, the incoming
  order and the trades emitted so far; an exception leaves the mutated book and order
  behind and loses the list.\<close>

function match_loop ::
  "OrderBook \<Rightarrow> Order \<Rightarrow> RawTrade list \<Rightarrow> (OrderBook \<times> Order) \<times> (error + RawTrade list)" where
  "match_loop b incoming trades =
     (if 0 < remaining incoming \<and> crossable b incoming then
        (case (if side incoming = buy then best_ask b else best_bid b) of
           None \<Rightarrow> ((b, incoming), Inr trades)
         | Some (k, best) \<Rightarrow>
             let opp = opposite (side incoming);
                 price = level_price best
             in (case queue best of
                   [] \<Rightarrow>
                     (case sd_del (get_side_book b opp) (level_price best) of
                        None \<Rightarrow> ((b, incoming), Inl KeyError)
                      | Some book' \<Rightarrow> match_loop (set_side_book b opp book') incoming trades)
                 | maker # rest \<Rightarrow>
                     let qty = min (remaining incoming) (remaining maker);
                         incoming' = incoming\<lparr>remaining := remaining incoming - qty\<rparr>;
                         maker' = maker\<lparr>remaining := remaining maker - qty\<rparr>;
                         trades' = trades @ [(maker', incoming', price, qty)];
                         b1 = (set_side_book b opp (sd_update (get_side_book b opp) k (fill_head qty)))
                                \<lparr>last_trade_price := Some price\<rparr>
                     in if remaining maker' \<le> 0 then
                          let b2 = (set_side_book b1 opp (sd_update (get_side_book b1 opp) k popleft))
                                     \<lparr>order_index := dict_pop (order_index b1) (order_id maker')\<rparr>;
                              b3 = (if rest = [] then
                                      set_side_book b2 opp (sd_pop (get_side_book b2 opp) price)
                                    else b2)
                          in match_loop b3 incoming' trades'
                        else match_loop b1 incoming' trades'))
      else ((b, incoming), Inr trades))"
  by pat_completeness auto

termination
proof (relation "measure match_measure", goal_cases)
  case 1 show ?case by simp
next
  case (2 b incoming trades x2 k best opp price book')
  from 2(2,3) have mem: "(k, best) \<in> set (get_side_book b opp)"
    using best_opp_mem [of incoming b k best] 2(4) by simp
  from 2(7) have "level_price best \<in> fst ` set (get_side_book b opp)" and
    "book' = sd_pop (get_side_book b opp) (level_price best)"
    by (auto simp: sd_del_def split: if_splits)
  then have "sd_size book' < sd_size (get_side_book b opp)"
    by (simp add: sd_size_pop_less)
  then have "book_size (set_side_book b opp book') < book_size b"
    by (rule book_size_set_less)
  then show ?case by (simp add: match_measure_def)
next
  case (3 b incoming trades x2 k best opp price maker rest qty incoming' maker' trades' b1 b2 b3)
  from 3(2,3) have mem: "(k, best) \<in> set (get_side_book b opp)"
    using best_opp_mem [of incoming b k best] 3(4) by simp
  have q: "queue best \<noteq> []" using 3(6) by simp
  have s2: "sd_size (get_side_book b2 opp) < sd_size (get_side_book b opp)"
    unfolding 3(13) 3(11) using sd_size_fill_pop [OF mem q] by simp
  have b2: "book_size b2 < book_size b"
    unfolding 3(13) 3(11) using sd_size_fill_pop [OF mem q, of qty]
    by (simp add: set_side_last_trade book_size_set_less)
  have "book_size b3 \<le> book_size b2"
    unfolding 3(14) by (simp add: book_size_set_le sd_size_pop_le)
  with b2 have "book_size b3 < book_size b" by simp
  then show ?case by (simp add: match_measure_def)
next
  case (4 b incoming trades x2 k best opp price maker rest qty incoming' maker' trades' b1)
  have "remaining incoming' = 0"
    using 4(12) unfolding 4(8) 4(7) 4(9) by (simp add: min_residual)
  moreover have "book_size b1 = book_size b"
    unfolding 4(11) using book_size_set_side [of b opp "sd_update (get_side_book b opp) k (fill_head qty)"]
    by simp
  ultimately show ?case using 4(1) by (simp add: match_measure_def)
qed


definition match :: "OrderBook \<Rightarrow> Order \<Rightarrow> (OrderBook \<times> Order) \<times> (error + RawTrade list)" where
  "match b incoming = match_loop b incoming []"

subsection \<open>The opposite side, best level first\<close>

text \<open>For a taker on side \<open>sd\<close>, \<open>view sd b\<close> lists the opposite side of the book with
  the best level first: the asks as stored, the bids reversed. \<open>put\<close> writes a view
  back. \<open>price_ok\<close> is the crossing test of \<open>_crossable\<close> against one level price.\<close>

declare match_loop.simps [simp del]

definition view :: "Side \<Rightarrow> OrderBook \<Rightarrow> (decimal \<times> PriceLevel) list" where
  "view sd b = (if sd = buy then asks b else rev (bids b))"

definition put :: "Side \<Rightarrow> OrderBook \<Rightarrow> (decimal \<times> PriceLevel) list \<Rightarrow> OrderBook" where
  "put sd b V = (if sd = buy then b\<lparr>asks := V\<rparr> else b\<lparr>bids := rev V\<rparr>)"

definition price_ok :: "Order \<Rightarrow> decimal \<Rightarrow> bool" where
  "price_ok incoming p =
     (type incoming = market \<or>
      (case price incoming of
         None \<Rightarrow> False
       | Some c \<Rightarrow> if side incoming = buy then p \<le> c else c \<le> p))"

definition inv_view :: "(decimal \<times> PriceLevel) list \<Rightarrow> bool" where
  "inv_view V = (distinct (map fst V) \<and> list_all (\<lambda>kv. level_price (snd kv) = fst kv) V)"

lemma crossable_view:
  "crossable b incoming =
     (view (side incoming) b \<noteq> [] \<and> price_ok incoming (fst (hd (view (side incoming) b))))"
  by (cases "side incoming"; cases "bids b = []"; cases "asks b = []")
     (auto simp: crossable_def best_prices_def view_def price_ok_def hd_rev split: option.splits)

lemma best_view:
  "(if side incoming = buy then best_ask b else best_bid b) =
     (case view (side incoming) b of [] \<Rightarrow> None | x # xs \<Rightarrow> Some x)"
  by (cases "side incoming"; cases "bids b = []"; cases "asks b = []")
     (auto simp: best_ask_def best_bid_def view_def hd_rev split: list.splits)

lemma get_opp_view:
  "get_side_book b (opposite sd) = (if sd = buy then view sd b else rev (view sd b))"
  by (cases sd) (auto simp: get_side_book_def opposite_def view_def)

lemma set_opp_put:
  "set_side_book b (opposite sd) d = put sd b (if sd = buy then d else rev d)"
  by (cases sd) (auto simp: set_side_book_def opposite_def put_def)

lemma sd_update_rev: "sd_update (rev d) k f = rev (sd_update d k f)"
  by (simp add: sd_update_def rev_map)

lemma sd_pop_rev: "sd_pop (rev d) k = rev (sd_pop d k)"
  by (simp add: sd_pop_def rev_filter)

lemma sd_del_rev: "sd_del (rev d) k = map_option rev (sd_del d k)"
  by (simp add: sd_del_def sd_pop_rev)

lemma sd_update_head:
  "k \<notin> fst ` set V \<Longrightarrow> sd_update ((k, l) # V) k f = (k, f l) # V"
  by (induction V) (auto simp: sd_update_def)

lemma sd_pop_head: "k \<notin> fst ` set V \<Longrightarrow> sd_pop ((k, l) # V) k = V"
  by (induction V) (auto simp: sd_pop_def)

lemma view_put [simp]: "view sd (put sd b V) = V"
  by (simp add: view_def put_def)

lemma put_put [simp]: "put sd (put sd b V) W = put sd b W"
  by (simp add: put_def)

lemma put_view [simp]: "put sd b (view sd b) = b"
  by (simp add: view_def put_def)

lemma view_last_trade [simp]: "view sd (b\<lparr>last_trade_price := x\<rparr>) = view sd b"
  by (simp add: view_def)

lemma view_order_index [simp]: "view sd (b\<lparr>order_index := x\<rparr>) = view sd b"
  by (simp add: view_def)

lemma put_last_trade: "put sd (b\<lparr>last_trade_price := x\<rparr>) V = (put sd b V)\<lparr>last_trade_price := x\<rparr>"
  by (simp add: put_def)

lemma put_order_index: "put sd (b\<lparr>order_index := x\<rparr>) V = (put sd b V)\<lparr>order_index := x\<rparr>"
  by (simp add: put_def)

lemma opp_update:
  "set_side_book b (opposite sd) (sd_update (get_side_book b (opposite sd)) k f)
     = put sd b (sd_update (view sd b) k f)"
  by (cases sd) (auto simp: set_side_book_def get_side_book_def opposite_def put_def view_def sd_update_rev)

lemma opp_pop:
  "set_side_book b (opposite sd) (sd_pop (get_side_book b (opposite sd)) k)
     = put sd b (sd_pop (view sd b) k)"
  by (cases sd) (auto simp: set_side_book_def get_side_book_def opposite_def put_def view_def sd_pop_rev)

lemma opp_del:
  "sd_del (get_side_book b (opposite sd)) k =
     (if k \<in> fst ` set (view sd b)
      then Some (if sd = buy then sd_pop (view sd b) k else rev (sd_pop (view sd b) k))
      else None)"
  by (cases sd) (auto simp: get_side_book_def opposite_def view_def sd_pop_rev sd_del_def)

lemma order_index_put [simp]: "order_index (put sd b V) = order_index b"
  by (simp add: put_def)

lemma last_trade_put [simp]: "last_trade_price (put sd b V) = last_trade_price b"
  by (simp add: put_def)

lemma match_loop_stop:
  assumes "\<not> (0 < remaining incoming \<and> view (side incoming) b \<noteq> []
      \<and> price_ok incoming (fst (hd (view (side incoming) b))))"
  shows "match_loop b incoming acc = ((b, incoming), Inr acc)"
proof -
  have c: "(0 < remaining incoming \<and> crossable b incoming) = False"
    using assms by (auto simp: crossable_view)
  show ?thesis by (subst match_loop.simps) (simp only: c if_False)
qed

lemma match_loop_empty:
  assumes "0 < remaining incoming" and "view (side incoming) b = (k, l) # V"
    and "price_ok incoming k" and "queue l = []" and "inv_view ((k, l) # V)"
  shows "match_loop b incoming acc = match_loop (put (side incoming) b V) incoming acc"
proof -
  have lp: "level_price l = k" and nk: "k \<notin> fst ` set V"
    using assms(5) by (auto simp: inv_view_def)
  have c: "(0 < remaining incoming \<and> crossable b incoming) = True"
    using assms(1-3) by (simp add: crossable_view)
  have best: "(if side incoming = buy then best_ask b else best_bid b) = Some (k, l)"
    by (simp only: best_view assms(2) list.case)
  have pop: "sd_pop (view (side incoming) b) k = V"
    by (simp only: assms(2) sd_pop_head [OF nk])
  have mem: "k \<in> fst ` set (view (side incoming) b)"
    by (simp add: assms(2))
  have del: "sd_del (get_side_book b (opposite (side incoming))) (level_price l)
      = Some (if side incoming = buy then V else rev V)"
    by (simp only: opp_del lp mem pop if_True)
  show ?thesis
    apply (subst match_loop.simps)
    apply (simp only: c best if_True option.case prod.case Let_def assms(4) list.case del set_opp_put)
    apply simp
    done
qed

lemma match_loop_fill:
  assumes "0 < remaining incoming" and "view (side incoming) b = (k, l) # V"
    and "price_ok incoming k" and "queue l = m # r" and "inv_view ((k, l) # V)"
  shows "match_loop b incoming acc =
     (let q = min (remaining incoming) (remaining m);
          incoming' = incoming\<lparr>remaining := remaining incoming - q\<rparr>;
          m' = m\<lparr>remaining := remaining m - q\<rparr>;
          acc' = acc @ [(m', incoming', k, q)]
      in if remaining m' \<le> 0 then
           match_loop
             ((put (side incoming) b (if r = [] then V else (k, l\<lparr>queue := r\<rparr>) # V))
                \<lparr>last_trade_price := Some k,
                 order_index := dict_pop (order_index b) (order_id m)\<rparr>)
             incoming' acc'
         else
           (((put (side incoming) b ((k, l\<lparr>queue := m' # r\<rparr>) # V))\<lparr>last_trade_price := Some k\<rparr>,
             incoming'), Inr acc'))"
proof -
  have lp: "level_price l = k" and nk: "k \<notin> fst ` set V"
    using assms(5) by (auto simp: inv_view_def)
  have c: "(0 < remaining incoming \<and> crossable b incoming) = True"
    using assms(1-3) by (simp add: crossable_view)
  have best: "(if side incoming = buy then best_ask b else best_bid b) = Some (k, l)"
    by (simp only: best_view assms(2) list.case)
  have fh: "fill_head q l = l\<lparr>queue := m\<lparr>remaining := remaining m - q\<rparr> # r\<rparr>" for q
    by (simp add: fill_head_def assms(4))
  have u1: "sd_update ((k, l) # V) k f = (k, f l) # V" for f
    using nk by (rule sd_update_head)
  have u2: "sd_update ((k, l') # V) k f = (k, f l') # V" for f l'
    using nk by (rule sd_update_head)
  have p2: "sd_pop ((k, l') # V) k = V" for l'
    using nk by (rule sd_pop_head)
  define q where "q = min (remaining incoming) (remaining m)"
  define inc1 where "inc1 = incoming\<lparr>remaining := remaining incoming - q\<rparr>"
  define m1 where "m1 = m\<lparr>remaining := remaining m - q\<rparr>"
  define acc1 where "acc1 = acc @ [(m1, inc1, k, q)]"
  have sinc: "side inc1 = side incoming" by (simp add: inc1_def)
  have idm: "order_id m1 = order_id m" by (simp add: m1_def)
  have stop: "match_loop b' inc1 acc1 = ((b', inc1), Inr acc1)" if "\<not> remaining m1 \<le> 0" for b'
  proof (rule match_loop_stop)
    from that have "remaining inc1 = 0"
      unfolding m1_def inc1_def q_def by (simp add: min_residual)
    then show "\<not> (0 < remaining inc1 \<and> view (side inc1) b' \<noteq> []
      \<and> price_ok inc1 (fst (hd (view (side inc1) b'))))" by simp
  qed
  have body: "match_loop b incoming acc =
     (if remaining m1 \<le> 0 then
        match_loop
          ((put (side incoming) b (if r = [] then V else (k, l\<lparr>queue := r\<rparr>) # V))
             \<lparr>last_trade_price := Some k,
              order_index := dict_pop (order_index b) (order_id m)\<rparr>)
          inc1 acc1
      else
        match_loop ((put (side incoming) b ((k, l\<lparr>queue := m1 # r\<rparr>) # V))\<lparr>last_trade_price := Some k\<rparr>)
          inc1 acc1)"
    apply (subst match_loop.simps)
    apply (simp only: c best if_True option.case prod.case Let_def assms(4) list.case)
    apply (simp only: q_def [symmetric])
    apply (simp only: inc1_def [symmetric] m1_def [symmetric])
    apply (simp only: acc1_def [symmetric] lp)
    apply (simp only: opp_update opp_pop assms(2) put_last_trade put_order_index
        view_put view_last_trade view_order_index u2 p2 fh put_put
        get_side_last_trade m1_def [symmetric] idm)
    apply (simp add: popleft_def put_last_trade put_order_index set_side_last_trade
        set_side_order_index opp_update opp_pop u2 p2 order_index_put)
    done
  show ?thesis
    unfolding Let_def q_def [symmetric] inc1_def [symmetric] m1_def [symmetric] acc1_def [symmetric]
    using body stop by (simp split: if_splits)
qed

subsection \<open>Well-formed sides and rule induction for the matching loop\<close>

text \<open>A view is well formed when its keys are strictly ordered, best first, and every
  level carries the price it is stored under.\<close>

definition view_inv :: "Side \<Rightarrow> (decimal \<times> PriceLevel) list \<Rightarrow> bool" where
  "view_inv sd V =
     ((if sd = buy then sorted_wrt (<) (map fst V) else sorted_wrt (>) (map fst V))
      \<and> list_all (\<lambda>kv. level_price (snd kv) = fst kv) V)"

lemma view_inv_Nil [simp]: "view_inv sd []"
  by (simp add: view_inv_def)

lemma view_inv_Cons:
  "view_inv sd ((k, l) # V) =
     (level_price l = k \<and> (\<forall>k' \<in> fst ` set V. if sd = buy then k < k' else k' < k) \<and> view_inv sd V)"
  by (auto simp: view_inv_def)

lemma view_inv_inv_view: "view_inv sd V \<Longrightarrow> inv_view V"
proof (induction V)
  case Nil then show ?case by (simp add: inv_view_def)
next
  case (Cons a V)
  obtain k l where a: "a = (k, l)" by (cases a)
  from Cons.prems have "k \<notin> fst ` set V" and "level_price l = k" and "view_inv sd V"
    unfolding a view_inv_Cons by (auto split: if_splits)
  with Cons.IH show ?case by (simp add: a inv_view_def)
qed

lemma view_inv_head_update:
  "view_inv sd ((k, l) # V) \<Longrightarrow> view_inv sd ((k, l\<lparr>queue := q\<rparr>) # V)"
  by (simp add: view_inv_Cons)

lemma view_inv_tail: "view_inv sd ((k, l) # V) \<Longrightarrow> view_inv sd V"
  by (simp add: view_inv_Cons)

lemma sd_size_Cons: "sd_size ((k, l) # V) = Suc (length (queue l)) + sd_size V"
  by (simp add: sd_size_def)

text \<open>Rule induction for the matching loop on a well-formed opposite side: the loop
  stops, drops an empty best level, pops a filled maker, or leaves a maker partly
  filled.\<close>

lemma match_loop_induct [consumes 1, case_names stop empty pop partial]:
  assumes inv: "view_inv (side incoming) (view (side incoming) b)"
    and stop: "\<And>b incoming acc.
        view_inv (side incoming) (view (side incoming) b) \<Longrightarrow>
        \<not> (0 < remaining incoming \<and> view (side incoming) b \<noteq> []
           \<and> price_ok incoming (fst (hd (view (side incoming) b)))) \<Longrightarrow>
        P b incoming acc ((b, incoming), Inr acc)"
    and empty: "\<And>b incoming acc k l V.
        view_inv (side incoming) (view (side incoming) b) \<Longrightarrow>
        0 < remaining incoming \<Longrightarrow> view (side incoming) b = (k, l) # V \<Longrightarrow>
        price_ok incoming k \<Longrightarrow> queue l = [] \<Longrightarrow>
        P (put (side incoming) b V) incoming acc (match_loop (put (side incoming) b V) incoming acc) \<Longrightarrow>
        P b incoming acc (match_loop (put (side incoming) b V) incoming acc)"
    and pop: "\<And>b incoming acc k l V m r q incoming' m' W b'.
        view_inv (side incoming) (view (side incoming) b) \<Longrightarrow>
        0 < remaining incoming \<Longrightarrow> view (side incoming) b = (k, l) # V \<Longrightarrow>
        price_ok incoming k \<Longrightarrow> queue l = m # r \<Longrightarrow>
        q = min (remaining incoming) (remaining m) \<Longrightarrow>
        incoming' = incoming\<lparr>remaining := remaining incoming - q\<rparr> \<Longrightarrow>
        m' = m\<lparr>remaining := remaining m - q\<rparr> \<Longrightarrow>
        remaining m' \<le> 0 \<Longrightarrow>
        W = (if r = [] then V else (k, l\<lparr>queue := r\<rparr>) # V) \<Longrightarrow>
        b' = (put (side incoming) b W)
               \<lparr>last_trade_price := Some k,
                order_index := dict_pop (order_index b) (order_id m)\<rparr> \<Longrightarrow>
        P b' incoming' (acc @ [(m', incoming', k, q)])
          (match_loop b' incoming' (acc @ [(m', incoming', k, q)])) \<Longrightarrow>
        P b incoming acc (match_loop b' incoming' (acc @ [(m', incoming', k, q)]))"
    and partial: "\<And>b incoming acc k l V m r q incoming' m'.
        view_inv (side incoming) (view (side incoming) b) \<Longrightarrow>
        0 < remaining incoming \<Longrightarrow> view (side incoming) b = (k, l) # V \<Longrightarrow>
        price_ok incoming k \<Longrightarrow> queue l = m # r \<Longrightarrow>
        q = min (remaining incoming) (remaining m) \<Longrightarrow>
        incoming' = incoming\<lparr>remaining := remaining incoming - q\<rparr> \<Longrightarrow>
        m' = m\<lparr>remaining := remaining m - q\<rparr> \<Longrightarrow>
        \<not> remaining m' \<le> 0 \<Longrightarrow>
        P b incoming acc
          (((put (side incoming) b ((k, l\<lparr>queue := m' # r\<rparr>) # V))\<lparr>last_trade_price := Some k\<rparr>,
            incoming'), Inr (acc @ [(m', incoming', k, q)]))"
  shows "P b incoming acc (match_loop b incoming acc)"
  using inv
proof (induction "sd_size (view (side incoming) b)" arbitrary: b incoming acc rule: less_induct)
  case less
  let ?sd = "side incoming"
  let ?V = "view ?sd b"
  note inv = less.prems
  show ?case
  proof (cases "0 < remaining incoming \<and> ?V \<noteq> [] \<and> price_ok incoming (fst (hd ?V))")
    case False
    then have "match_loop b incoming acc = ((b, incoming), Inr acc)" by (rule match_loop_stop)
    with stop [OF inv False] show ?thesis by simp
  next
    case True
    then obtain k l V where V: "?V = (k, l) # V" by (cases ?V) auto
    from True V have pos: "0 < remaining incoming" and ok: "price_ok incoming k" by auto
    from inv V have invC: "view_inv ?sd ((k, l) # V)" by simp
    then have iv: "inv_view ((k, l) # V)" by (rule view_inv_inv_view)
    show ?thesis
    proof (cases "queue l")
      case Nil
      have eq: "match_loop b incoming acc = match_loop (put ?sd b V) incoming acc"
        by (rule match_loop_empty [OF pos V ok Nil iv])
      have "sd_size (view ?sd (put ?sd b V)) < sd_size ?V" by (simp add: V sd_size_Cons)
      moreover have "view_inv ?sd (view ?sd (put ?sd b V))"
        using invC by (simp add: view_inv_tail)
      ultimately have "P (put ?sd b V) incoming acc (match_loop (put ?sd b V) incoming acc)"
        by (rule less.hyps)
      from empty [OF inv pos V ok Nil this] show ?thesis by (simp add: eq)
    next
      case (Cons m r)
      define q where "q = min (remaining incoming) (remaining m)"
      define inc1 where "inc1 = incoming\<lparr>remaining := remaining incoming - q\<rparr>"
      define m1 where "m1 = m\<lparr>remaining := remaining m - q\<rparr>"
      define W where "W = (if r = [] then V else (k, l\<lparr>queue := r\<rparr>) # V)"
      define b1 where "b1 = (put ?sd b W)
               \<lparr>last_trade_price := Some k,
                order_index := dict_pop (order_index b) (order_id m)\<rparr>"
      have sinc: "side inc1 = ?sd" by (simp add: inc1_def)
      note step = match_loop_fill [OF pos V ok Cons iv, of acc, unfolded Let_def,
          folded q_def, folded inc1_def m1_def, folded W_def, folded b1_def]
      show ?thesis
      proof (cases "remaining m1 \<le> 0")
        case True
        have eq: "match_loop b incoming acc = match_loop b1 inc1 (acc @ [(m1, inc1, k, q)])"
          using step True by simp
        have vb1: "view ?sd b1 = W" by (simp add: b1_def)
        have sz: "sd_size W < sd_size ?V"
          by (simp add: W_def V sd_size_Cons Cons)
        have iW: "view_inv ?sd W"
          using invC by (auto simp: W_def view_inv_Cons)
        have "P b1 inc1 (acc @ [(m1, inc1, k, q)]) (match_loop b1 inc1 (acc @ [(m1, inc1, k, q)]))"
        proof (rule less.hyps)
          show "sd_size (view (side inc1) b1) < sd_size ?V" by (simp only: sinc vb1 sz)
          show "view_inv (side inc1) (view (side inc1) b1)" by (simp only: sinc vb1 iW)
        qed
        from pop [OF inv pos V ok Cons q_def inc1_def m1_def True W_def b1_def this]
        show ?thesis by (simp add: eq)
      next
        case False
        from partial [OF inv pos V ok Cons q_def inc1_def m1_def False]
        show ?thesis using step False by simp
      qed
    qed
  qed
qed

subsection \<open>Matching as a walk over the makers in price-time order\<close>

text \<open>\<open>makers V\<close> flattens a view into the resting orders in price-time priority, each
  with the price of its level. \<open>fifo_fills\<close> is the specification of the fills: walk
  that list in order, fill each maker at its level price with the minimum of the two
  remaining quantities, and stop when the taker is exhausted or the price no longer
  crosses. \<open>unfilled\<close> is what the walk leaves on the side.\<close>

definition makers :: "(decimal \<times> PriceLevel) list \<Rightarrow> (decimal \<times> Order) list" where
  "makers V = concat (map (\<lambda>kv. map (Pair (fst kv)) (queue (snd kv))) V)"

fun fifo_fills :: "Order \<Rightarrow> (decimal \<times> Order) list \<Rightarrow> RawTrade list" where
  "fifo_fills incoming [] = []"
| "fifo_fills incoming ((p, m) # ms) =
     (if 0 < remaining incoming \<and> price_ok incoming p then
        let q = min (remaining incoming) (remaining m);
            incoming' = incoming\<lparr>remaining := remaining incoming - q\<rparr>;
            m' = m\<lparr>remaining := remaining m - q\<rparr>
        in (m', incoming', p, q) # fifo_fills incoming' ms
      else [])"

fun unfilled :: "Order \<Rightarrow> (decimal \<times> Order) list \<Rightarrow> (decimal \<times> Order) list" where
  "unfilled incoming [] = []"
| "unfilled incoming ((p, m) # ms) =
     (if 0 < remaining incoming \<and> price_ok incoming p then
        let q = min (remaining incoming) (remaining m);
            incoming' = incoming\<lparr>remaining := remaining incoming - q\<rparr>;
            m' = m\<lparr>remaining := remaining m - q\<rparr>
        in if remaining m' \<le> 0 then unfilled incoming' ms else (p, m') # ms
      else (p, m) # ms)"

definition filled_qty :: "RawTrade list \<Rightarrow> decimal" where
  "filled_qty fills = sum_list (map (\<lambda>f. snd (snd (snd f))) fills)"

lemma makers_Nil [simp]: "makers [] = []"
  by (simp add: makers_def)

lemma makers_Cons: "makers ((k, l) # V) = map (Pair k) (queue l) @ makers V"
  by (simp add: makers_def)

lemma makers_keys: "fst ` set (makers V) \<subseteq> fst ` set V"
  by (induction V) (auto simp: makers_def)

lemma price_ok_remaining [simp]: "price_ok (incoming\<lparr>remaining := x\<rparr>) p = price_ok incoming p"
  by (simp add: price_ok_def split: option.splits)

lemma price_ok_worse:
  "\<not> price_ok incoming k \<Longrightarrow> (if side incoming = buy then k \<le> p else p \<le> k) \<Longrightarrow>
   \<not> price_ok incoming p"
  by (auto simp: price_ok_def split: option.splits if_splits)

lemma fifo_fills_none:
  "\<not> 0 < remaining incoming \<or> (\<forall>p \<in> fst ` set ms. \<not> price_ok incoming p) \<Longrightarrow>
   fifo_fills incoming ms = [] \<and> unfilled incoming ms = ms"
  by (cases ms) auto

lemma view_stop:
  assumes inv: "view_inv (side incoming) V"
    and stop: "\<not> (0 < remaining incoming \<and> V \<noteq> [] \<and> price_ok incoming (fst (hd V)))"
  shows "fifo_fills incoming (makers V) = [] \<and> unfilled incoming (makers V) = makers V"
proof (rule fifo_fills_none)
  show "\<not> 0 < remaining incoming \<or> (\<forall>p \<in> fst ` set (makers V). \<not> price_ok incoming p)"
  proof (cases "0 < remaining incoming")
    case False then show ?thesis by simp
  next
    case True
    show ?thesis
    proof (cases V)
      case Nil then show ?thesis by simp
    next
      case (Cons a V')
      obtain k l where a: "a = (k, l)" by (cases a)
      from stop True Cons a have nok: "\<not> price_ok incoming k" by simp
      have "\<not> price_ok incoming p" if "p \<in> fst ` set V" for p
      proof -
        from that inv have "if side incoming = buy then k \<le> p else p \<le> k"
          unfolding Cons a view_inv_Cons by (auto split: if_splits)
        with nok show ?thesis by (rule price_ok_worse)
      qed
      with makers_keys [of V] show ?thesis by blast
    qed
  qed
qed

lemma match_loop_fills:
  assumes "view_inv (side incoming) (view (side incoming) b)"
  shows "snd (match_loop b incoming acc)
           = Inr (acc @ fifo_fills incoming (makers (view (side incoming) b)))"
proof (rule match_loop_induct [where P = "\<lambda>b incoming acc res.
     snd res = Inr (acc @ fifo_fills incoming (makers (view (side incoming) b)))", OF assms],
    goal_cases)
  case (1 b incoming acc)
  then show ?case by (simp add: view_stop)
next
  case (2 b incoming acc k l V)
  then show ?case by (simp add: makers_Cons)
next
  case (3 b incoming acc k l V m r q incoming' m' W b')
  have "makers (view (side incoming) b) = (k, m) # makers W"
    by (simp add: 3(3,5,10) makers_Cons)
  moreover have "view (side incoming') b' = W" by (simp add: 3(7,11))
  ultimately show ?case using 3(12) 3(2,4)
    by (simp add: Let_def 3(6,7,8) [symmetric])
next
  case (4 b incoming acc k l V m r q incoming' m')
  have mk: "makers (view (side incoming) b) = (k, m) # makers ((k, l\<lparr>queue := r\<rparr>) # V)"
    by (simp add: 4(3,5) makers_Cons)
  have "remaining incoming' = 0"
    using 4(9) unfolding 4(6,7,8) by (simp add: min_residual)
  then have "fifo_fills incoming' ms = []" for ms
    using fifo_fills_none [of incoming' ms] by simp
  then show ?case using 4(2,4)
    by (simp add: mk Let_def 4(6,7,8) [symmetric])
qed


definition last_price :: "decimal option \<Rightarrow> RawTrade list \<Rightarrow> decimal option" where
  "last_price lp fills = (if fills = [] then lp else Some (fst (snd (snd (last fills)))))"

definition filled_ids :: "RawTrade list \<Rightarrow> string list" where
  "filled_ids fills = map (\<lambda>f. order_id (fst f)) (filter (\<lambda>f. remaining (fst f) \<le> 0) fills)"

lemma match_loop_unfilled:
  assumes "view_inv (side incoming) (view (side incoming) b)"
  shows "makers (view (side incoming) (fst (fst (match_loop b incoming acc))))
           = unfilled incoming (makers (view (side incoming) b))"
proof (rule match_loop_induct [where P = "\<lambda>b incoming acc res.
     makers (view (side incoming) (fst (fst res)))
       = unfilled incoming (makers (view (side incoming) b))", OF assms],
    goal_cases)
  case (1 b incoming acc)
  then show ?case by (simp add: view_stop)
next
  case (2 b incoming acc k l V)
  then show ?case by (simp add: makers_Cons)
next
  case (3 b incoming acc k l V m r q incoming' m' W b')
  have "makers (view (side incoming) b) = (k, m) # makers W"
    by (simp add: 3(3,5,10) makers_Cons)
  moreover have "view (side incoming') b' = W" by (simp add: 3(7,11))
  moreover have "side incoming' = side incoming" by (simp add: 3(7))
  moreover have "remaining m - q \<le> 0" using 3(9) by (simp add: 3(8))
  ultimately show ?case using 3(12) 3(2,4)
    by (simp add: Let_def 3(6,7) [symmetric])
next
  case (4 b incoming acc k l V m r q incoming' m')
  have mk: "makers (view (side incoming) b) = (k, m) # makers ((k, l\<lparr>queue := r\<rparr>) # V)"
    by (simp add: 4(3,5) makers_Cons)
  have "\<not> remaining m - q \<le> 0" using 4(9) by (simp add: 4(8))
  then show ?case using 4(2,4)
    by (simp add: mk Let_def 4(6) [symmetric] 4(8) makers_Cons)
qed

lemma filled_qty_Cons [simp]: "filled_qty ((m, t, p, q) # fs) = q + filled_qty fs"
  by (simp add: filled_qty_def)

lemma filled_qty_Nil [simp]: "filled_qty [] = 0"
  by (simp add: filled_qty_def)

lemma match_loop_taker:
  assumes "view_inv (side incoming) (view (side incoming) b)"
  shows "snd (fst (match_loop b incoming acc))
           = incoming\<lparr>remaining := remaining incoming
                 - filled_qty (fifo_fills incoming (makers (view (side incoming) b)))\<rparr>"
proof (rule match_loop_induct [where P = "\<lambda>b incoming acc res.
     snd (fst res) = incoming\<lparr>remaining := remaining incoming
                 - filled_qty (fifo_fills incoming (makers (view (side incoming) b)))\<rparr>", OF assms],
    goal_cases)
  case (1 b incoming acc)
  then show ?case by (simp add: view_stop)
next
  case (2 b incoming acc k l V)
  then show ?case by (simp add: makers_Cons)
next
  case (3 b incoming acc k l V m r q incoming' m' W b')
  have "makers (view (side incoming) b) = (k, m) # makers W"
    by (simp add: 3(3,5,10) makers_Cons)
  moreover have "view (side incoming') b' = W" by (simp add: 3(7,11))
  ultimately show ?case using 3(12) 3(2,4)
    by (simp add: Let_def 3(6) [symmetric] 3(7) algebra_simps)
next
  case (4 b incoming acc k l V m r q incoming' m')
  have mk: "makers (view (side incoming) b) = (k, m) # makers ((k, l\<lparr>queue := r\<rparr>) # V)"
    by (simp add: 4(3,5) makers_Cons)
  have "remaining incoming' = 0"
    using 4(9) unfolding 4(6,7,8) by (simp add: min_residual)
  then have "fifo_fills incoming' ms = []" for ms
    using fifo_fills_none [of incoming' ms] by simp
  then show ?case using 4(2,4)
    by (simp add: mk Let_def 4(6,7) [symmetric])
qed

lemma last_price_Nil [simp]: "last_price lp [] = lp"
  by (simp add: last_price_def)

lemma last_price_Cons [simp]: "last_price lp ((m, t, p, q) # fs) = last_price (Some p) fs"
  by (simp add: last_price_def)

lemma filled_ids_Nil [simp]: "filled_ids [] = []"
  by (simp add: filled_ids_def)

lemma filled_ids_Cons [simp]:
  "filled_ids ((m, t, p, q) # fs) = (if remaining m \<le> 0 then order_id m # filled_ids fs else filled_ids fs)"
  by (simp add: filled_ids_def)

lemma filter_dict_pop:
  "filter (\<lambda>kv. fst kv \<notin> set ids) (dict_pop d k) = filter (\<lambda>kv. fst kv \<notin> set (k # ids)) d"
  by (induction d) (auto simp: dict_pop_def)

lemma match_loop_book:
  assumes "view_inv (side incoming) (view (side incoming) b)"
  shows "last_trade_price (fst (fst (match_loop b incoming acc)))
           = last_price (last_trade_price b) (fifo_fills incoming (makers (view (side incoming) b)))
       \<and> order_index (fst (fst (match_loop b incoming acc)))
           = filter (\<lambda>kv. fst kv \<notin> set (filled_ids (fifo_fills incoming (makers (view (side incoming) b)))))
               (order_index b)"
proof (rule match_loop_induct [where P = "\<lambda>b incoming acc res.
     last_trade_price (fst (fst res))
           = last_price (last_trade_price b) (fifo_fills incoming (makers (view (side incoming) b)))
       \<and> order_index (fst (fst res))
           = filter (\<lambda>kv. fst kv \<notin> set (filled_ids (fifo_fills incoming (makers (view (side incoming) b)))))
               (order_index b)", OF assms],
    goal_cases)
  case (1 b incoming acc)
  then show ?case by (simp add: view_stop)
next
  case (2 b incoming acc k l V)
  then show ?case by (simp add: makers_Cons)
next
  case (3 b incoming acc k l V m r q incoming' m' W b')
  have mk: "makers (view (side incoming) b) = (k, m) # makers W"
    by (simp add: 3(3,5,10) makers_Cons)
  have vw: "view (side incoming') b' = W" by (simp add: 3(7,11))
  have dep: "remaining m - q \<le> 0" using 3(9) by (simp add: 3(8))
  have lt: "last_trade_price b' = Some k" and oi: "order_index b' = dict_pop (order_index b) (order_id m)"
    by (simp_all add: 3(11))
  show ?case using 3(12) 3(2,4) dep
    by (simp add: mk vw lt oi Let_def 3(6,7) [symmetric] filter_dict_pop)
next
  case (4 b incoming acc k l V m r q incoming' m')
  have mk: "makers (view (side incoming) b) = (k, m) # makers ((k, l\<lparr>queue := r\<rparr>) # V)"
    by (simp add: 4(3,5) makers_Cons)
  have "remaining incoming' = 0"
    using 4(9) unfolding 4(6,7,8) by (simp add: min_residual)
  then have ff: "fifo_fills incoming' ms = []" for ms
    using fifo_fills_none [of incoming' ms] by simp
  have "\<not> remaining m - q \<le> 0" using 4(9) by (simp add: 4(8))
  then show ?case using 4(2,4)
    by (simp add: mk ff Let_def 4(6,7) [symmetric])
qed

lemma get_side_put [simp]: "get_side_book (put sd b V) sd = get_side_book b sd"
  by (simp add: get_side_book_def put_def)

lemma book_symbol_put [simp]: "book_symbol (put sd b V) = book_symbol b"
  by (simp add: put_def)

definition no_empty_level :: "(decimal \<times> PriceLevel) list \<Rightarrow> bool" where
  "no_empty_level V = list_all (\<lambda>kv. queue (snd kv) \<noteq> []) V"

lemma match_loop_inv:
  assumes "view_inv (side incoming) (view (side incoming) b)"
  shows "view_inv (side incoming) (view (side incoming) (fst (fst (match_loop b incoming acc))))
       \<and> (no_empty_level (view (side incoming) b) \<longrightarrow>
            no_empty_level (view (side incoming) (fst (fst (match_loop b incoming acc)))))"
proof (rule match_loop_induct [where P = "\<lambda>b incoming acc res.
     view_inv (side incoming) (view (side incoming) (fst (fst res)))
       \<and> (no_empty_level (view (side incoming) b) \<longrightarrow>
            no_empty_level (view (side incoming) (fst (fst res))))", OF assms],
    goal_cases)
  case (1 b incoming acc)
  then show ?case by simp
next
  case (2 b incoming acc k l V)
  then show ?case by (simp add: no_empty_level_def)
next
  case (3 b incoming acc k l V m r q incoming' m' W b')
  have vw: "view (side incoming) b' = W" by (simp add: 3(11))
  have sd: "side incoming' = side incoming" by (simp add: 3(7))
  have "no_empty_level (view (side incoming) b) \<Longrightarrow> no_empty_level W"
    by (simp add: 3(3,10) no_empty_level_def)
  then show ?case using 3(12) by (simp add: vw sd)
next
  case (4 b incoming acc k l V m r q incoming' m')
  from 4(1) have "view_inv (side incoming) ((k, l\<lparr>queue := m' # r\<rparr>) # V)"
    unfolding 4(3) by (rule view_inv_head_update)
  then show ?case by (simp add: 4(3) no_empty_level_def)
qed

subsection \<open>What the matching loop leaves untouched\<close>

text \<open>Rule induction for the matching loop on any book: the loop stops, fails on a
  level whose price is not its key, drops an empty level, or fills the head maker.\<close>

lemma match_loop_raw_induct [case_names stop error drop fill]:
  assumes stop: "\<And>b incoming acc. P b incoming acc ((b, incoming), Inr acc)"
    and error: "\<And>b incoming acc. P b incoming acc ((b, incoming), Inl KeyError)"
    and drop: "\<And>b incoming acc p res.
        P (set_side_book b (opposite (side incoming))
             (sd_pop (get_side_book b (opposite (side incoming))) p)) incoming acc res \<Longrightarrow>
        P b incoming acc res"
    and fill: "\<And>b incoming acc k best m r q incoming' m' opp b1 b2 res.
        (k, best) \<in> set (get_side_book b (opposite (side incoming))) \<Longrightarrow>
        queue best = m # r \<Longrightarrow>
        q = min (remaining incoming) (remaining m) \<Longrightarrow>
        incoming' = incoming\<lparr>remaining := remaining incoming - q\<rparr> \<Longrightarrow>
        m' = m\<lparr>remaining := remaining m - q\<rparr> \<Longrightarrow>
        opp = opposite (side incoming) \<Longrightarrow>
        b1 = (set_side_book b opp (sd_update (get_side_book b opp) k (fill_head q)))
               \<lparr>last_trade_price := Some (level_price best)\<rparr> \<Longrightarrow>
        b2 = (if remaining m' \<le> 0 then
                (let c = (set_side_book b1 opp (sd_update (get_side_book b1 opp) k popleft))
                           \<lparr>order_index := dict_pop (order_index b1) (order_id m')\<rparr>
                 in if r = [] then set_side_book c opp (sd_pop (get_side_book c opp) (level_price best))
                    else c)
              else b1) \<Longrightarrow>
        P b2 incoming' (acc @ [(m', incoming', level_price best, q)]) res \<Longrightarrow>
        P b incoming acc res"
  shows "P b incoming acc (match_loop b incoming acc)"
proof (induction b incoming acc rule: match_loop.induct)
  case (1 b incoming trades)
  show ?case
  proof (cases "0 < remaining incoming \<and> crossable b incoming")
    case False
    then have "match_loop b incoming trades = ((b, incoming), Inr trades)"
      by (subst match_loop.simps) (simp only: if_False)
    then show ?thesis by (simp add: stop)
  next
    case c: True
    then have cT: "(0 < remaining incoming \<and> crossable b incoming) = True" by simp
    show ?thesis
    proof (cases "if side incoming = buy then best_ask b else best_bid b")
      case None
      have "match_loop b incoming trades = ((b, incoming), Inr trades)"
        by (subst match_loop.simps) (simp only: cT None if_True option.case)
      then show ?thesis by (simp add: stop)
    next
      case (Some x2)
      obtain k best where x2: "x2 = (k, best)" by (cases x2)
      note best = Some [unfolded x2]
      let ?opp = "opposite (side incoming)"
      show ?thesis
      proof (cases "queue best")
        case Nil
        show ?thesis
        proof (cases "sd_del (get_side_book b ?opp) (level_price best)")
          case None
          have "match_loop b incoming trades = ((b, incoming), Inl KeyError)"
            by (subst match_loop.simps)
               (simp only: cT best if_True option.case prod.case Let_def Nil list.case None)
          then show ?thesis by (simp add: error)
        next
          case (Some book')
          have eq: "match_loop b incoming trades = match_loop (set_side_book b ?opp book') incoming trades"
            by (subst match_loop.simps)
               (simp only: cT best if_True option.case prod.case Let_def Nil list.case Some)
          have ih: "P (set_side_book b ?opp book') incoming trades
                      (match_loop (set_side_book b ?opp book') incoming trades)"
            by (rule "1.IH"(1) [OF c best [folded x2] x2 [symmetric] refl refl Nil Some])
          have "book' = sd_pop (get_side_book b ?opp) (level_price best)"
            using Some by (simp add: sd_del_def split: if_splits)
          with ih show ?thesis unfolding eq by (auto intro: drop)
        qed
      next
        case (Cons m r)
        define q where "q = min (remaining incoming) (remaining m)"
        define inc1 where "inc1 = incoming\<lparr>remaining := remaining incoming - q\<rparr>"
        define m1 where "m1 = m\<lparr>remaining := remaining m - q\<rparr>"
        define acc1 where "acc1 = trades @ [(m1, inc1, level_price best, q)]"
        define b1 where "b1 = (set_side_book b ?opp (sd_update (get_side_book b ?opp) k (fill_head q)))
               \<lparr>last_trade_price := Some (level_price best)\<rparr>"
        define c1 where "c1 = (set_side_book b1 ?opp (sd_update (get_side_book b1 ?opp) k popleft))
                           \<lparr>order_index := dict_pop (order_index b1) (order_id m1)\<rparr>"
        define b3 where "b3 = (if r = [] then set_side_book c1 ?opp (sd_pop (get_side_book c1 ?opp) (level_price best)) else c1)"
        define b2 where "b2 = (if remaining m1 \<le> 0 then b3 else b1)"
        have mem: "(k, best) \<in> set (get_side_book b ?opp)"
          using best by (rule best_opp_mem)
        have eq: "match_loop b incoming trades = match_loop b2 inc1 acc1"
          apply (subst match_loop.simps)
          apply (simp only: cT best if_True option.case prod.case Let_def Cons list.case)
          apply (simp only: q_def [symmetric])
          apply (simp only: inc1_def [symmetric] m1_def [symmetric])
          apply (simp only: acc1_def [symmetric] b1_def [symmetric])
          apply (simp only: c1_def [symmetric])
          apply (simp only: b3_def [symmetric])
          apply (simp only: b2_def if_distrib [of "\<lambda>x. match_loop x inc1 acc1"])
          done
        have ih: "P b2 inc1 acc1 (match_loop b2 inc1 acc1)"
        proof (cases "remaining m1 \<le> 0")
          case True
          have "P b3 inc1 acc1 (match_loop b3 inc1 acc1)"
            by (rule "1.IH"(2) [OF c best [folded x2] x2 [symmetric] refl refl Cons q_def inc1_def
                  m1_def acc1_def b1_def True c1_def b3_def])
          with True show ?thesis by (simp add: b2_def)
        next
          case False
          have "P b1 inc1 acc1 (match_loop b1 inc1 acc1)"
            by (rule "1.IH"(3) [OF c best [folded x2] x2 [symmetric] refl refl Cons q_def inc1_def
                  m1_def acc1_def b1_def False])
          with False show ?thesis by (simp add: b2_def)
        qed
        have b2': "b2 = (if remaining m1 \<le> 0 then
                (let c = (set_side_book b1 ?opp (sd_update (get_side_book b1 ?opp) k popleft))
                           \<lparr>order_index := dict_pop (order_index b1) (order_id m1)\<rparr>
                 in if r = [] then set_side_book c ?opp (sd_pop (get_side_book c ?opp) (level_price best))
                    else c)
              else b1)"
          by (simp only: b2_def b3_def c1_def Let_def)
        show ?thesis
          unfolding eq acc1_def
          by (rule fill [OF mem Cons q_def inc1_def m1_def refl b1_def b2' ih [unfolded acc1_def]])
      qed
    qed
  qed
qed

text \<open>\<open>same_but_remaining od' od\<close>: the two orders agree on every field but
  \<open>remaining\<close>. \<open>orders_kept d' d\<close>: every order on the side \<open>d'\<close> is an order of
  \<open>d\<close> up to its remaining quantity.\<close>

definition level_orders :: "(decimal \<times> PriceLevel) list \<Rightarrow> Order list" where
  "level_orders d = concat (map (\<lambda>kv. queue (snd kv)) d)"

definition same_but_remaining :: "Order \<Rightarrow> Order \<Rightarrow> bool" where
  "same_but_remaining od' od = (od' = od\<lparr>remaining := remaining od'\<rparr>)"

definition orders_kept :: "(decimal \<times> PriceLevel) list \<Rightarrow> (decimal \<times> PriceLevel) list \<Rightarrow> bool" where
  "orders_kept d' d =
     list_all (\<lambda>od'. list_ex (\<lambda>od. same_but_remaining od' od) (level_orders d)) (level_orders d')"

lemma same_but_remaining_refl [simp]: "same_but_remaining od od"
  by (simp add: same_but_remaining_def)

lemma same_but_remaining_update [simp]: "same_but_remaining (od\<lparr>remaining := x\<rparr>) od"
  by (simp add: same_but_remaining_def)

lemma same_but_remaining_trans:
  "same_but_remaining a b \<Longrightarrow> same_but_remaining b c \<Longrightarrow> same_but_remaining a c"
proof -
  assume "same_but_remaining a b" and "same_but_remaining b c"
  then have 1: "a = b\<lparr>remaining := remaining a\<rparr>" and 2: "b = c\<lparr>remaining := remaining b\<rparr>"
    unfolding same_but_remaining_def by this+
  have "a = (c\<lparr>remaining := remaining b\<rparr>)\<lparr>remaining := remaining a\<rparr>"
    by (subst 2 [symmetric]) (rule 1)
  also have "\<dots> = c\<lparr>remaining := remaining a\<rparr>" by simp
  finally show ?thesis unfolding same_but_remaining_def .
qed

lemma orders_kept_iff:
  "orders_kept d' d \<longleftrightarrow>
     (\<forall>od' \<in> set (level_orders d'). \<exists>od \<in> set (level_orders d). same_but_remaining od' od)"
  by (simp add: orders_kept_def list_all_iff list_ex_iff)

lemma orders_kept_refl [simp]: "orders_kept d d"
  unfolding orders_kept_iff using same_but_remaining_refl by blast

lemma orders_kept_trans: "orders_kept a b \<Longrightarrow> orders_kept b c \<Longrightarrow> orders_kept a c"
proof -
  assume ab: "orders_kept a b" and bc: "orders_kept b c"
  show ?thesis
    unfolding orders_kept_iff
  proof
    fix x assume "x \<in> set (level_orders a)"
    with ab obtain y where y: "y \<in> set (level_orders b)" "same_but_remaining x y"
      unfolding orders_kept_iff by blast
    with bc obtain z where z: "z \<in> set (level_orders c)" "same_but_remaining y z"
      unfolding orders_kept_iff by blast
    from y(2) z(2) have "same_but_remaining x z" by (rule same_but_remaining_trans)
    with z(1) show "\<exists>od \<in> set (level_orders c). same_but_remaining x od" by blast
  qed
qed

lemma level_orders_Cons: "level_orders (kv # d) = queue (snd kv) @ level_orders d"
  by (simp add: level_orders_def)

lemma level_orders_Nil [simp]: "level_orders [] = []"
  by (simp add: level_orders_def)

lemma level_orders_pop: "set (level_orders (sd_pop d k)) \<subseteq> set (level_orders d)"
  by (induction d) (auto simp: level_orders_Cons sd_pop_def)

lemma orders_kept_pop [simp]: "orders_kept (sd_pop d k) d"
  unfolding orders_kept_iff using level_orders_pop [of d k] same_but_remaining_refl by blast

lemma orders_kept_update:
  assumes f: "\<And>l od'. od' \<in> set (queue (f l)) \<Longrightarrow> \<exists>od \<in> set (queue l). same_but_remaining od' od"
  shows "orders_kept (sd_update d k f) d"
  unfolding orders_kept_iff
proof (induction d)
  case Nil
  show ?case by (simp add: sd_update_def)
next
  case (Cons kv d)
  have upd: "sd_update (kv # d) k f =
      (if fst kv = k then (fst kv, f (snd kv)) else kv) # sd_update d k f"
    by (simp add: sd_update_def)
  show ?case
  proof
    fix x assume x: "x \<in> set (level_orders (sd_update (kv # d) k f))"
    then consider "x \<in> set (queue (snd (if fst kv = k then (fst kv, f (snd kv)) else kv)))"
      | "x \<in> set (level_orders (sd_update d k f))"
      unfolding upd level_orders_Cons by auto
    then show "\<exists>od \<in> set (level_orders (kv # d)). same_but_remaining x od"
    proof cases
      case 1
      have "\<exists>od \<in> set (queue (snd kv)). same_but_remaining x od"
      proof (cases "fst kv = k")
        case True
        with 1 have "x \<in> set (queue (f (snd kv)))" by simp
        then show ?thesis by (rule f)
      next
        case False
        with 1 have "x \<in> set (queue (snd kv))" by simp
        then show ?thesis using same_but_remaining_refl by blast
      qed
      then show ?thesis unfolding level_orders_Cons by auto
    next
      case 2
      with Cons.IH obtain od where "od \<in> set (level_orders d)" "same_but_remaining x od" by blast
      then show ?thesis unfolding level_orders_Cons by auto
    qed
  qed
qed

lemma orders_kept_fill_head [simp]: "orders_kept (sd_update d k (fill_head q)) d"
proof (rule orders_kept_update)
  fix l od' assume od': "od' \<in> set (queue (fill_head q l))"
  show "\<exists>od \<in> set (queue l). same_but_remaining od' od"
  proof (cases "queue l")
    case Nil
    with od' show ?thesis by (simp add: fill_head_def)
  next
    case (Cons m r)
    with od' have "od' = m\<lparr>remaining := remaining m - q\<rparr> \<or> od' \<in> set r"
      by (simp add: fill_head_def)
    then show ?thesis
    proof
      assume "od' = m\<lparr>remaining := remaining m - q\<rparr>"
      then have "same_but_remaining od' m" by simp
      then show ?thesis unfolding Cons by (meson list.set_intros(1))
    next
      assume "od' \<in> set r"
      then show ?thesis unfolding Cons using same_but_remaining_refl by (meson list.set_intros(2))
    qed
  qed
qed

lemma orders_kept_popleft [simp]: "orders_kept (sd_update d k popleft) d"
proof (rule orders_kept_update)
  fix l od' assume "od' \<in> set (queue (popleft l))"
  then have "od' \<in> set (queue l)" by (simp add: popleft_def list.set_sel(2) split: list.splits) (metis list.sel(2) list.set_sel(2))
  then show "\<exists>od \<in> set (queue l). same_but_remaining od' od"
    using same_but_remaining_refl by blast
qed


lemma get_own_set_opp [simp]:
  "get_side_book (set_side_book b (opposite s) d) s = get_side_book b s"
  by (simp add: get_side_book_def set_side_book_def opposite_def)

lemma book_symbol_set_side [simp]: "book_symbol (set_side_book b s d) = book_symbol b"
  by (simp add: set_side_book_def)

lemma order_index_set_side [simp]: "order_index (set_side_book b s d) = order_index b"
  by (simp add: set_side_book_def)

lemma match_loop_own_side:
  "get_side_book (fst (fst (match_loop b incoming acc))) (side incoming)
     = get_side_book b (side incoming)
   \<and> book_symbol (fst (fst (match_loop b incoming acc))) = book_symbol b
   \<and> same_but_remaining (snd (fst (match_loop b incoming acc))) incoming"
proof (rule match_loop_raw_induct [where P = "\<lambda>b incoming acc res.
     get_side_book (fst (fst res)) (side incoming) = get_side_book b (side incoming)
   \<and> book_symbol (fst (fst res)) = book_symbol b
   \<and> same_but_remaining (snd (fst res)) incoming"], goal_cases)
  case (1 b incoming acc) show ?case by simp
next
  case (2 b incoming acc) show ?case by simp
next
  case (3 b incoming acc p res) then show ?case by simp
next
  case (4 b incoming acc k best m r q incoming' m' opp b1 b2 res)
  have s: "side incoming' = side incoming" by (simp add: 4(4))
  have b1: "get_side_book b1 (side incoming) = get_side_book b (side incoming)"
    "book_symbol b1 = book_symbol b"
    by (simp_all add: 4(6,7))
  have b2: "get_side_book b2 (side incoming) = get_side_book b (side incoming)"
    "book_symbol b2 = book_symbol b"
    by (simp_all add: 4(8) 4(6) Let_def b1)
  have "same_but_remaining incoming' incoming" by (simp add: 4(4))
  with 4(9) have "same_but_remaining (snd (fst res)) incoming"
    by (blast intro: same_but_remaining_trans)
  with 4(9) show ?case by (simp add: s b2)
qed

lemma match_loop_orders_kept:
  "orders_kept (get_side_book (fst (fst (match_loop b incoming acc))) (opposite (side incoming)))
     (get_side_book b (opposite (side incoming)))"
proof (rule match_loop_raw_induct [where P = "\<lambda>b incoming acc res.
     orders_kept (get_side_book (fst (fst res)) (opposite (side incoming)))
       (get_side_book b (opposite (side incoming)))"], goal_cases)
  case (1 b incoming acc) show ?case by simp
next
  case (2 b incoming acc) show ?case by simp
next
  case (3 b incoming acc p res)
  then show ?case by (auto intro: orders_kept_trans)
next
  case (4 b incoming acc k best m r q incoming' m' opp b1 b2 res)
  let ?d = "get_side_book b opp"
  have s: "side incoming' = side incoming" by (simp add: 4(4))
  have g1: "get_side_book b1 opp = sd_update ?d k (fill_head q)" by (simp add: 4(7))
  then have k1: "orders_kept (get_side_book b1 opp) ?d" by simp
  have k2: "orders_kept (get_side_book b2 opp) (get_side_book b1 opp)"
    by (auto simp: 4(8) Let_def intro: orders_kept_trans [OF orders_kept_pop orders_kept_popleft])
  from k2 k1 have "orders_kept (get_side_book b2 opp) ?d" by (rule orders_kept_trans)
  with 4(9) show ?case unfolding s 4(6) [symmetric] by (rule orders_kept_trans)
qed

lemma level_orders_mem:
  "(k, l) \<in> set d \<Longrightarrow> od \<in> set (queue l) \<Longrightarrow> od \<in> set (level_orders d)"
  by (induction d) (auto simp: level_orders_Cons)

lemma orders_kept_ids:
  "orders_kept d' d \<Longrightarrow> order_id ` set (level_orders d') \<subseteq> order_id ` set (level_orders d)"
proof
  fix x assume k: "orders_kept d' d" and "x \<in> order_id ` set (level_orders d')"
  then obtain od' where od': "od' \<in> set (level_orders d')" "x = order_id od'" by blast
  with k obtain od where od: "od \<in> set (level_orders d)" "same_but_remaining od' od"
    unfolding orders_kept_iff by blast
  from od(2) have "od' = od\<lparr>remaining := remaining od'\<rparr>" unfolding same_but_remaining_def .
  then have "order_id od' = order_id (od\<lparr>remaining := remaining od'\<rparr>)" by (rule arg_cong)
  then have "order_id od' = order_id od" by simp
  with od(1) od'(2) show "x \<in> order_id ` set (level_orders d)" by blast
qed

lemma match_loop_index:
  "\<exists>new. (\<forall>ts. snd (match_loop b incoming acc) = Inr ts \<longrightarrow> ts = acc @ new)
     \<and> order_index (fst (fst (match_loop b incoming acc)))
          = filter (\<lambda>kv. fst kv \<notin> set (filled_ids new)) (order_index b)
     \<and> set (filled_ids new)
          \<subseteq> order_id ` set (level_orders (get_side_book b (opposite (side incoming))))"
proof (rule match_loop_raw_induct [where P = "\<lambda>b incoming acc res.
   \<exists>new. (\<forall>ts. snd res = Inr ts \<longrightarrow> ts = acc @ new)
     \<and> order_index (fst (fst res))
          = filter (\<lambda>kv. fst kv \<notin> set (filled_ids new)) (order_index b)
     \<and> set (filled_ids new)
          \<subseteq> order_id ` set (level_orders (get_side_book b (opposite (side incoming))))"], goal_cases)
  case (1 b incoming acc)
  show ?case by (rule exI [of _ "[]"]) simp
next
  case (2 b incoming acc)
  show ?case by (rule exI [of _ "[]"]) simp
next
  case (3 b incoming acc p res)
  then obtain new where new: "\<forall>ts. snd res = Inr ts \<longrightarrow> ts = acc @ new"
    "order_index (fst (fst res)) = filter (\<lambda>kv. fst kv \<notin> set (filled_ids new)) (order_index b)"
    "set (filled_ids new) \<subseteq> order_id ` set (level_orders
        (sd_pop (get_side_book b (opposite (side incoming))) p))"
    by auto
  from new(3) level_orders_pop [of "get_side_book b (opposite (side incoming))" p]
  have "set (filled_ids new)
          \<subseteq> order_id ` set (level_orders (get_side_book b (opposite (side incoming))))"
    by blast
  with new(1,2) show ?case by blast
next
  case (4 b incoming acc k best m r q incoming' m' opp b1 b2 res)
  let ?d = "get_side_book b opp"
  let ?f = "(m', incoming', level_price best, q)"
  have s: "side incoming' = side incoming" by (simp add: 4(4))
  from 4(9) obtain new where new: "\<forall>ts. snd res = Inr ts \<longrightarrow> ts = (acc @ [?f]) @ new"
    "order_index (fst (fst res)) = filter (\<lambda>kv. fst kv \<notin> set (filled_ids new)) (order_index b2)"
    "set (filled_ids new) \<subseteq> order_id ` set (level_orders (get_side_book b2 opp))"
    unfolding s 4(6) [symmetric] by auto
  have g1: "get_side_book b1 opp = sd_update ?d k (fill_head q)" by (simp add: 4(7))
  then have k1: "orders_kept (get_side_book b1 opp) ?d" by simp
  have k2: "orders_kept (get_side_book b2 opp) (get_side_book b1 opp)"
    by (auto simp: 4(8) Let_def intro: orders_kept_trans [OF orders_kept_pop orders_kept_popleft])
  from k2 k1 have "orders_kept (get_side_book b2 opp) ?d" by (rule orders_kept_trans)
  then have sub: "order_id ` set (level_orders (get_side_book b2 opp)) \<subseteq> order_id ` set (level_orders ?d)"
    by (rule orders_kept_ids)
  have "m \<in> set (level_orders ?d)"
    using 4(1) unfolding 4(6) [symmetric] by (rule level_orders_mem) (simp add: 4(2))
  then have idm: "order_id m' \<in> order_id ` set (level_orders ?d)"
    by (auto simp: 4(5) intro: rev_image_eqI)
  have oi: "order_index b2 = (if remaining m' \<le> 0 then dict_pop (order_index b) (order_id m')
                              else order_index b)"
    by (simp add: 4(8) 4(7) Let_def)
  show ?case
  proof (rule exI [of _ "?f # new"], intro conjI)
    show "\<forall>ts. snd res = Inr ts \<longrightarrow> ts = acc @ ?f # new" using new(1) by simp
    show "order_index (fst (fst res))
        = filter (\<lambda>kv. fst kv \<notin> set (filled_ids (?f # new))) (order_index b)"
      unfolding new(2) oi by (simp add: filter_dict_pop)
    show "set (filled_ids (?f # new))
        \<subseteq> order_id ` set (level_orders (get_side_book b (opposite (side incoming))))"
      using new(3) sub idm unfolding 4(6) [symmetric] by auto
  qed
qed

subsection \<open>Well-formed book sides\<close>

text \<open>A side of the book as the code maintains it: keys strictly ascending (a
  \<open>SortedDict\<close>) and every level stored under its own price (\<open>add_limit\<close> creates
  levels that way). \<open>fill_key\<close> and \<open>maker_key\<close> project a fill and a resting maker
  to execution price and maker id.\<close>

definition side_inv :: "(decimal \<times> PriceLevel) list \<Rightarrow> bool" where
  "side_inv d =
     (sorted_wrt (<) (map fst d) \<and> list_all (\<lambda>kv. level_price (snd kv) = fst kv) d)"

lemma sorted_rev_keys:
  "sorted_wrt (<) (map fst d) \<Longrightarrow> sorted_wrt (\<lambda>x y. y < x) (map fst (rev d))"
  by (simp only: rev_map [symmetric] sorted_wrt_rev)

lemma side_inv_view:
  "side_inv (get_side_book b (opposite sd)) \<Longrightarrow> view_inv sd (view sd b)"
  by (cases sd)
     (auto simp: side_inv_def view_inv_def view_def get_side_book_def opposite_def
        sorted_rev_keys)

definition fill_key :: "RawTrade \<Rightarrow> decimal \<times> string" where
  "fill_key f = (fst (snd (snd f)), order_id (fst f))"

definition maker_key :: "decimal \<times> Order \<Rightarrow> decimal \<times> string" where
  "maker_key pm = (fst pm, order_id (snd pm))"

lemma fifo_fills_prefix:
  "map fill_key (fifo_fills incoming ms)
     = take (length (fifo_fills incoming ms)) (map maker_key ms)"
  by (induction incoming ms rule: fifo_fills.induct)
     (auto simp: Let_def fill_key_def maker_key_def)

lemma sorted_unrev_keys:
  "sorted_wrt (\<lambda>x y. y < x) (map fst (rev d)) \<Longrightarrow> sorted_wrt (<) (map fst d)"
  by (simp only: rev_map [symmetric] sorted_wrt_rev)

lemma view_inv_side:
  "view_inv sd (view sd b) \<Longrightarrow> side_inv (get_side_book b (opposite sd))"
  by (cases sd)
     (auto simp: side_inv_def view_inv_def view_def get_side_book_def opposite_def
        sorted_unrev_keys)

section \<open>Matching engine (app/engine.py)\<close>

text \<open>
  The engine runs on one event loop and no critical section suspends, so every operation
  below is atomic. Locks, the websocket manager and the logger hold no data the
  operations read back and are left out; the tasks that
  \<open>_record_trades_and_broadcast\<close> schedules run later, as operations of their own.
  The module-level id counter is kept in the engine record, and the clock reading
  \<open>now_ts()\<close> is a parameter.
\<close>

record MatchingEngine =
  books :: "(string \<times> OrderBook) list"
  recent_trades :: "(string \<times> Trade list) list"
  order_symbol_index :: "(string \<times> string) list"
  triggers :: "(string \<times> Order list) list"
  maker_rebate_bps :: decimal
  taker_fee_bps :: decimal
  recent_trades_limit :: nat
  id_counter :: nat

definition new_engine :: MatchingEngine where
  "new_engine = \<lparr>books = [], recent_trades = [], order_symbol_index = [], triggers = [],
                  maker_rebate_bps = - 1, taker_fee_bps = 5 / 2, recent_trades_limit = 1000,
                  id_counter = 1\<rparr>"

text \<open>A \<open>defaultdict(list)\<close> entry, created empty on first access.\<close>

definition dd_get :: "('k \<times> 'v list) list \<Rightarrow> 'k \<Rightarrow> 'v list" where
  "dd_get d k = (case dict_get d k of None \<Rightarrow> [] | Some xs \<Rightarrow> xs)"

definition dd_touch :: "('k \<times> 'v list) list \<Rightarrow> 'k \<Rightarrow> ('k \<times> 'v list) list" where
  "dd_touch d k = (if dict_get d k = None then dict_set d k [] else d)"

text \<open>\<open>deque(maxlen=n).append\<close>: the oldest entries fall out.\<close>

definition deque_append :: "nat \<Rightarrow> 'a list \<Rightarrow> 'a \<Rightarrow> 'a list" where
  "deque_append n xs x = (let ys = xs @ [x] in drop (length ys - n) ys)"

definition ensure_book :: "MatchingEngine \<Rightarrow> string \<Rightarrow> MatchingEngine" where
  "ensure_book e s =
     (if dict_get (books e) s = None then e\<lparr>books := dict_set (books e) s (new_book s)\<rparr>
      else e)"

definition fees :: "MatchingEngine \<Rightarrow> decimal \<Rightarrow> decimal \<Rightarrow> error + decimal \<times> decimal" where
  "fees e p qty =
     (let notional = p * qty;
          mf = (notional * maker_rebate_bps e) / 10000;
          tf = (notional * taker_fee_bps e) / 10000
      in case quantize_8 mf of
           Inl err \<Rightarrow> Inl err
         | Inr qmf \<Rightarrow>
             (case quantize_8 tf of
                Inl err \<Rightarrow> Inl err
              | Inr qtf \<Rightarrow> Inr (qmf, qtf)))"

subsection \<open>FOK precheck\<close>

text \<open>The inner loop over a level queue: \<open>None\<close> when the function returned
  \<open>True\<close> from inside it, otherwise the remaining need.\<close>

primrec fok_queue :: "decimal \<Rightarrow> Order list \<Rightarrow> decimal option" where
  "fok_queue need [] = Some need"
| "fok_queue need (od # q) =
     (let need' = need - remaining od in
      if need' \<le> 0 then None else fok_queue need' q)"

text \<open>The outer loop over the levels in iteration order; \<open>beyond p\<close> is the
  \<open>break\<close> test.\<close>

fun fok_levels :: "(decimal \<Rightarrow> bool) \<Rightarrow> decimal \<Rightarrow> (decimal \<times> PriceLevel) list \<Rightarrow> bool" where
  "fok_levels beyond need [] = False"
| "fok_levels beyond need ((p, level) # rest) =
     (if beyond p then False
      else (case fok_queue need (queue level) of
              None \<Rightarrow> True
            | Some need' \<Rightarrow> fok_levels beyond need' rest))"

definition precheck_fok ::
  "MatchingEngine \<Rightarrow> string \<Rightarrow> Side \<Rightarrow> decimal option \<Rightarrow> decimal \<Rightarrow> error + bool" where
  "precheck_fok e s sd pr qty =
     (case dict_get (books e) s of
        None \<Rightarrow> Inl KeyError
      | Some book \<Rightarrow>
          if sd = buy then
            Inr (fok_levels (\<lambda>p. case pr of None \<Rightarrow> False | Some cap \<Rightarrow> cap < p) qty (asks book))
          else
            Inr (fok_levels (\<lambda>p. case pr of None \<Rightarrow> False | Some cap \<Rightarrow> p < cap) qty
                   (rev (bids book))))"

subsection \<open>Trade recording\<close>

text \<open>The loop of \<open>_record_trades_and_broadcast\<close>. Per fill: the fees are quantized,
  then the trade id is minted, then price and quantity are quantized, in the order the
  arguments of \<open>Trade(...)\<close> are evaluated; an \<open>InvalidOperation\<close> leaves the engine as
  the loop had it at that point.\<close>

fun record_trades_and_broadcast ::
  "MatchingEngine \<Rightarrow> string \<Rightarrow> string \<Rightarrow> RawTrade list \<Rightarrow> Trade list
     \<Rightarrow> MatchingEngine \<times> (error + Trade list)" where
  "record_trades_and_broadcast e s now [] trades = (e, Inr trades)"
| "record_trades_and_broadcast e s now ((maker, taker, p, qty) # raw) trades =
     (case fees e p qty of
        Inl err \<Rightarrow> (e, Inl err)
      | Inr (mf, tf) \<Rightarrow>
          let e1 = e\<lparr>id_counter := Suc (id_counter e)\<rparr> in
          (case quantize_8 p of
             Inl err \<Rightarrow> (e1, Inl err)
           | Inr qp \<Rightarrow>
               (case quantize_8 qty of
                  Inl err \<Rightarrow> (e1, Inl err)
                | Inr qq \<Rightarrow>
                    let tr = \<lparr>trade_id = next_id ''tr'' (id_counter e), trade_symbol = s,
                              trade_price = qp, trade_quantity = qq,
                              aggressor_side = side taker, maker_order_id = order_id maker,
                              taker_order_id = order_id taker, trade_timestamp = now,
                              maker_fee = mf, taker_fee = tf\<rparr>;
                        e' = e1\<lparr>recent_trades := dict_set (recent_trades e1) s
                               (deque_append (recent_trades_limit e1)
                                  (dd_get (recent_trades e1) s) tr)\<rparr>
                    in record_trades_and_broadcast e' s now raw (trades @ [tr]))))"

subsection \<open>Submit\<close>

definition is_trigger_type :: "OrderType \<Rightarrow> bool" where
  "is_trigger_type t = (t = stop \<or> t = stop_limit \<or> t = take_profit)"

definition set_book :: "MatchingEngine \<Rightarrow> string \<Rightarrow> OrderBook \<Rightarrow> MatchingEngine" where
  "set_book e s b = e\<lparr>books := dict_set (books e) s b\<rparr>"

text \<open>The \<open>Order(...)\<close> that \<open>submit_order\<close> constructs from a request, with the
  minted id and the clock reading.\<close>

definition make_order :: "string \<Rightarrow> OrderRequest \<Rightarrow> string \<Rightarrow> Order" where
  "make_order oid req now =
     \<lparr>order_id = oid, symbol = req_symbol req, side = req_side req,
      type = req_type req, quantity = req_quantity req,
      remaining = req_quantity req, price = req_price req, timestamp = now,
      client_order_id = req_client_order_id req, stop_price = req_stop_price req,
      take_profit_price = req_take_profit_price req, user_id = None\<rparr>"

definition submit_order ::
  "MatchingEngine \<Rightarrow> OrderRequest \<Rightarrow> string \<Rightarrow> MatchingEngine \<times> (error + Order \<times> Trade list)" where
  "submit_order e0 req now =
     (let s = req_symbol req;
          e1 = ensure_book e0 s;
          order = make_order (next_id ''ord'' (id_counter e1)) req now;
          e = e1\<lparr>id_counter := Suc (id_counter e1)\<rparr>
      in case dict_get (books e) s of
           None \<Rightarrow> (e, Inl KeyError)
         | Some book \<Rightarrow>
             if is_trigger_type (type order) then
               (e\<lparr>triggers := dict_set (triggers e) s (dd_get (triggers e) s @ [order]),
                  order_symbol_index := dict_set (order_symbol_index e) (order_id order) s\<rparr>,
                Inr (order, []))
             else if type order = fok
                   \<and> precheck_fok e s (side order) (price order) (quantity order) = Inr False then
               (e, Inr (order, []))
             else
               (case match book order of
                  ((book', order'), Inl err) \<Rightarrow> (set_book e s book', Inl err)
                | ((book', order'), Inr raw_trades) \<Rightarrow>
                    (case record_trades_and_broadcast (set_book e s book') s now raw_trades [] of
                       (e', Inl err) \<Rightarrow> (e', Inl err)
                     | (e', Inr trades) \<Rightarrow>
                         if 0 < remaining order' \<and> type order' = limit then
                           (case add_limit book' order' of
                              Inl err \<Rightarrow> (e', Inl err)
                            | Inr book'' \<Rightarrow>
                                ((set_book e' s book'')
                                   \<lparr>order_symbol_index :=
                                      dict_set (order_symbol_index e') (order_id order') s\<rparr>,
                                 Inr (order', trades)))
                         else (e', Inr (order', trades)))))"

subsection \<open>Cancel\<close>

text \<open>The scan over \<open>self.triggers.items()\<close>: the first order with the id, over the
  symbols in insertion order, is popped and returned.\<close>

fun cancel_scan :: "(string \<times> Order list) list \<Rightarrow> string \<Rightarrow> ((string \<times> Order list) list \<times> Order) option" where
  "cancel_scan [] oid = None"
| "cancel_scan ((sy, lst) # d) oid =
     (case find (\<lambda>od. order_id od = oid) lst of
        Some od \<Rightarrow> Some ((sy, remove1 od lst) # d, od)
      | None \<Rightarrow>
          (case cancel_scan d oid of
             None \<Rightarrow> None
           | Some (d', od) \<Rightarrow> Some ((sy, lst) # d', od)))"

text \<open>The branch of \<open>cancel_order\<close> taken when \<open>not symbol\<close> holds, that is when the
  index has no entry for the id or maps it to the empty string.\<close>

definition cancel_trigger :: "MatchingEngine \<Rightarrow> string \<Rightarrow> MatchingEngine \<times> (error + Order option)" where
  "cancel_trigger e oid =
     (case cancel_scan (triggers e) oid of
        Some (d', od) \<Rightarrow> (e\<lparr>triggers := d'\<rparr>, Inr (Some od))
      | None \<Rightarrow> (e, Inr None))"

definition cancel_order :: "MatchingEngine \<Rightarrow> string \<Rightarrow> MatchingEngine \<times> (error + Order option)" where
  "cancel_order e oid =
     (case dict_get (order_symbol_index e) oid of
        None \<Rightarrow> cancel_trigger e oid
      | Some s \<Rightarrow>
          if s = [] then cancel_trigger e oid
          else
            (case dict_get (books e) s of
               None \<Rightarrow> (e, Inl KeyError)
             | Some book \<Rightarrow>
                 let (book', removed) = remove_order book oid;
                     e' = set_book e s book'
                 in if removed \<noteq> None then
                      (e'\<lparr>order_symbol_index := dict_pop (order_symbol_index e') oid\<rparr>,
                       Inr removed)
                    else (e', Inr removed)))"

subsection \<open>Trigger evaluation and activation\<close>

text \<open>The test \<open>(last is not None and cmp(last, level)) or (quote is not None and
  cmp(quote, level))\<close> with Python's short-circuit order. Comparing a decimal with
  \<open>None\<close> raises \<open>TypeError\<close>.\<close>

definition trigger_cond ::
  "(decimal \<Rightarrow> decimal \<Rightarrow> bool) \<Rightarrow> decimal option \<Rightarrow> decimal option \<Rightarrow> decimal option \<Rightarrow> error + bool" where
  "trigger_cond cmp lst quote lvl =
     (case lst of
        Some l \<Rightarrow>
          (case lvl of
             None \<Rightarrow> Inl TypeError
           | Some t \<Rightarrow>
               if cmp l t then Inr True
               else (case quote of None \<Rightarrow> Inr False | Some q \<Rightarrow> Inr (cmp q t)))
      | None \<Rightarrow>
          (case quote of
             None \<Rightarrow> Inr False
           | Some q \<Rightarrow> (case lvl of None \<Rightarrow> Inl TypeError | Some t \<Rightarrow> Inr (cmp q t))))"

text \<open>One pass of the scan loop over a pending order: the order as the pass leaves it
  (a stop-limit that fires has its type set to \<open>limit\<close> in place) and whether it was
  appended to \<open>to_activate\<close>.\<close>

definition scan_one ::
  "decimal option \<Rightarrow> decimal option \<Rightarrow> decimal option \<Rightarrow> Order \<Rightarrow> error + Order \<times> bool" where
  "scan_one lst bid ask od =
     (if type od = stop then
        (if side od = buy then
           (case trigger_cond (\<lambda>x y. y \<le> x) lst ask (stop_price od) of
              Inl err \<Rightarrow> Inl err | Inr fire \<Rightarrow> Inr (od, fire))
         else
           (case trigger_cond (\<lambda>x y. x \<le> y) lst bid (stop_price od) of
              Inl err \<Rightarrow> Inl err | Inr fire \<Rightarrow> Inr (od, fire)))
      else if type od = stop_limit then
        (if stop_price od = None \<or> price od = None then Inr (od, False)
         else if side od = buy then
           (case trigger_cond (\<lambda>x y. y \<le> x) lst ask (stop_price od) of
              Inl err \<Rightarrow> Inl err
            | Inr fire \<Rightarrow> Inr (if fire then od\<lparr>type := limit\<rparr> else od, fire))
         else
           (case trigger_cond (\<lambda>x y. x \<le> y) lst bid (stop_price od) of
              Inl err \<Rightarrow> Inl err
            | Inr fire \<Rightarrow> Inr (if fire then od\<lparr>type := limit\<rparr> else od, fire)))
      else if type od = take_profit then
        (if take_profit_price od = None then Inr (od, False)
         else if side od = sell then
           (case trigger_cond (\<lambda>x y. y \<le> x) lst ask (take_profit_price od) of
              Inl err \<Rightarrow> Inl err | Inr fire \<Rightarrow> Inr (od, fire))
         else
           (case trigger_cond (\<lambda>x y. x \<le> y) lst bid (take_profit_price od) of
              Inl err \<Rightarrow> Inl err | Inr fire \<Rightarrow> Inr (od, fire)))
      else Inr (od, False))"

text \<open>The scan over \<open>list(self.triggers[symbol])\<close>: the pending list as the scan leaves
  it, and \<open>to_activate\<close> or the exception that stopped the scan.\<close>

fun scan_triggers ::
  "decimal option \<Rightarrow> decimal option \<Rightarrow> decimal option \<Rightarrow> Order list \<Rightarrow> Order list \<times> (error + Order list)" where
  "scan_triggers lst bid ask [] = ([], Inr [])"
| "scan_triggers lst bid ask (od # ods) =
     (case scan_one lst bid ask od of
        Inl err \<Rightarrow> (od # ods, Inl err)
      | Inr (od', fire) \<Rightarrow>
          (case scan_triggers lst bid ask ods of
             (ods', Inl err) \<Rightarrow> (od' # ods', Inl err)
           | (ods', Inr acts) \<Rightarrow> (od' # ods', Inr (if fire then od' # acts else acts))))"

definition submit_activated ::
  "MatchingEngine \<Rightarrow> string \<Rightarrow> Order \<Rightarrow> string \<Rightarrow> MatchingEngine \<times> (error + unit)" where
  "submit_activated e s od now =
     (case dict_get (books e) s of
        None \<Rightarrow> (e, Inl KeyError)
      | Some book \<Rightarrow>
          (case match book od of
             ((book', od'), Inl err) \<Rightarrow> (set_book e s book', Inl err)
           | ((book', od'), Inr raw_trades) \<Rightarrow>
               (case record_trades_and_broadcast (set_book e s book') s now raw_trades [] of
                  (e', Inl err) \<Rightarrow> (e', Inl err)
                | (e', Inr trades) \<Rightarrow>
                    if 0 < remaining od' \<and> type od' = limit \<and> price od' \<noteq> None then
                      (case add_limit book' od' of
                         Inl err \<Rightarrow> (e', Inl err)
                       | Inr book'' \<Rightarrow>
                           ((set_book e' s book'')
                              \<lparr>order_symbol_index :=
                                 dict_set (order_symbol_index e') (order_id od') s\<rparr>,
                            Inr ()))
                    else (e', Inr ()))))"

text \<open>The activation loop. \<open>list.remove\<close> drops the first element equal to the order;
  a missing element (\<open>ValueError\<close>) is ignored.\<close>

fun activate_all ::
  "MatchingEngine \<Rightarrow> string \<Rightarrow> string \<Rightarrow> Order list \<Rightarrow> MatchingEngine \<times> (error + unit)" where
  "activate_all e s now [] = (e, Inr ())"
| "activate_all e s now (od # ods) =
     (let e1 = e\<lparr>triggers := dict_set (triggers e) s (remove1 od (dd_get (triggers e) s))\<rparr>;
          od1 = (if type od = stop \<and> price od = None then od\<lparr>type := market\<rparr> else od)
      in case submit_activated e1 s od1 now of
           (e2, Inl err) \<Rightarrow> (e2, Inl err)
         | (e2, Inr u) \<Rightarrow> activate_all e2 s now ods)"

definition process_triggers ::
  "MatchingEngine \<Rightarrow> string \<Rightarrow> string \<Rightarrow> MatchingEngine \<times> (error + unit)" where
  "process_triggers e s now =
     (case dict_get (books e) s of
        None \<Rightarrow> (e, Inl KeyError)
      | Some book \<Rightarrow>
          let lst = last_trade_price book;
              (bid, ask) = best_prices book;
              e1 = e\<lparr>triggers := dd_touch (triggers e) s\<rparr>
          in case scan_triggers lst bid ask (dd_get (triggers e1) s) of
               (pending, Inl err) \<Rightarrow> (e1\<lparr>triggers := dict_set (triggers e1) s pending\<rparr>, Inl err)
             | (pending, Inr to_activate) \<Rightarrow>
                 activate_all (e1\<lparr>triggers := dict_set (triggers e1) s pending\<rparr>) s now
                   to_activate)"

subsection \<open>Depth snapshot (OrderBook.snapshot_l2)\<close>

text \<open>One side of the snapshot; the entries are (price, quantity) pairs, their rendering
  as strings left out. The \<open>break\<close> test follows the append. A quantity that cannot be
  quantized raises.\<close>

fun snapshot_side ::
  "int \<Rightarrow> (decimal \<times> PriceLevel) list \<Rightarrow> (decimal \<times> decimal) list
     \<Rightarrow> error + (decimal \<times> decimal) list" where
  "snapshot_side depth [] acc = Inr acc"
| "snapshot_side depth ((p, level) # rest) acc =
     (let qty = total_quantity level in
      if 0 < qty then
        (case quantize_8 qty of
           Inl err \<Rightarrow> Inl err
         | Inr q \<Rightarrow>
             let acc' = acc @ [(p, q)] in
             if depth \<le> int (length acc') then Inr acc' else snapshot_side depth rest acc')
      else if depth \<le> int (length acc) then Inr acc
      else snapshot_side depth rest acc)"

definition snapshot_l2 ::
  "OrderBook \<Rightarrow> int \<Rightarrow> error + (decimal \<times> decimal) list \<times> (decimal \<times> decimal) list" where
  "snapshot_l2 b depth =
     (case snapshot_side depth (rev (bids b)) [] of
        Inl err \<Rightarrow> Inl err
      | Inr bs \<Rightarrow>
          (case snapshot_side depth (asks b) [] of
             Inl err \<Rightarrow> Inl err
           | Inr as \<Rightarrow> Inr (bs, as)))"

subsection \<open>Persistence (app/persistence.py, save_state, load_state)\<close>

text \<open>The persisted order dictionary. Decimal fields are written with \<open>str\<close> and read
  back with \<open>Decimal(str(...))\<close>, which is exact; the model keeps the decimal.\<close>

record OrderDict =
  od_order_id :: string
  od_side :: Side
  od_type :: OrderType
  od_quantity :: decimal
  od_remaining :: decimal
  od_price :: "decimal option"
  od_timestamp :: string
  od_client_order_id :: "string option"
  od_stop_price :: "decimal option"
  od_take_profit_price :: "decimal option"
  od_user_id :: "string option"

record SavedState =
  open_orders :: "(string \<times> OrderDict list) list"
  saved_trades :: "(string \<times> Trade list) list"

text \<open>\<open>str(x) if x else None\<close>: a zero decimal is falsy.\<close>

definition truthy :: "decimal option \<Rightarrow> decimal option" where
  "truthy x = (case x of None \<Rightarrow> None | Some d \<Rightarrow> if d = 0 then None else Some d)"

definition order_dict :: "Order \<Rightarrow> OrderDict" where
  "order_dict od =
     \<lparr>od_order_id = order_id od, od_side = side od, od_type = type od,
      od_quantity = quantity od, od_remaining = remaining od, od_price = price od,
      od_timestamp = timestamp od, od_client_order_id = client_order_id od,
      od_stop_price = truthy (stop_price od),
      od_take_profit_price = truthy (take_profit_price od), od_user_id = user_id od\<rparr>"

definition book_orders :: "OrderBook \<Rightarrow> Order list" where
  "book_orders b = concat (map (\<lambda>kv. queue (snd kv)) (bids b @ asks b))"

text \<open>The dictionary \<open>save_state\<close> builds and hands to the persistence layer.\<close>

definition state_dict :: "MatchingEngine \<Rightarrow> SavedState" where
  "state_dict e =
     \<lparr>open_orders = map (\<lambda>sb. (fst sb, map order_dict (book_orders (snd sb)))) (books e),
      saved_trades = recent_trades e\<rparr>"

text \<open>The file \<open>state.json\<close>: absent, or the dictionary last committed to it.
  \<open>persistence.save_state\<close> encodes with the plain \<open>json.dump\<close>. The order dictionaries
  hold strings only, but a trade record (\<open>asdict\<close> of a \<open>Trade\<close>) holds \<open>Decimal\<close>
  fields, which \<open>json.dump\<close> refuses with \<open>TypeError\<close>: the exception leaves the
  temporary file behind and \<open>state.json\<close> as it was. \<open>persistence.load_state\<close> reads
  the committed file, or returns the empty dictionary when there is none.\<close>

type_synonym disk = "SavedState option"

definition json_serializable :: "SavedState \<Rightarrow> bool" where
  "json_serializable data = list_all (\<lambda>st. snd st = []) (saved_trades data)"

definition persistence_save_state :: "disk \<Rightarrow> SavedState \<Rightarrow> disk \<times> (error + unit)" where
  "persistence_save_state d data =
     (if json_serializable data then (Some data, Inr ()) else (d, Inl TypeError))"

definition persistence_load_state :: "disk \<Rightarrow> SavedState" where
  "persistence_load_state d =
     (case d of None \<Rightarrow> \<lparr>open_orders = [], saved_trades = []\<rparr> | Some data \<Rightarrow> data)"

definition save_state :: "MatchingEngine \<Rightarrow> disk \<Rightarrow> disk \<times> (error + unit)" where
  "save_state e d = persistence_save_state d (state_dict e)"

definition load_order :: "string \<Rightarrow> OrderDict \<Rightarrow> Order" where
  "load_order s d =
     \<lparr>order_id = od_order_id d, symbol = s, side = od_side d, type = od_type d,
      quantity = od_quantity d, remaining = od_remaining d, price = od_price d,
      timestamp = od_timestamp d, client_order_id = od_client_order_id d,
      stop_price = od_stop_price d, take_profit_price = od_take_profit_price d,
      user_id = od_user_id d\<rparr>"

fun load_orders :: "MatchingEngine \<Rightarrow> string \<Rightarrow> OrderDict list \<Rightarrow> MatchingEngine \<times> (error + unit)" where
  "load_orders e s [] = (e, Inr ())"
| "load_orders e s (d # ds) =
     (let order = load_order s d in
      if type order = limit \<and> 0 < remaining order \<and> price order \<noteq> None then
        (case dict_get (books e) s of
           None \<Rightarrow> (e, Inl KeyError)
         | Some book \<Rightarrow>
             (case add_limit book order of
                Inl err \<Rightarrow> (e, Inl err)
              | Inr book' \<Rightarrow>
                  load_orders
                    ((set_book e s book')
                       \<lparr>order_symbol_index :=
                          dict_set (order_symbol_index e) (order_id order) s\<rparr>) s ds))
      else if is_trigger_type (type order) then
        load_orders (e\<lparr>triggers := dict_set (triggers e) s (dd_get (triggers e) s @ [order])\<rparr>) s ds
      else load_orders e s ds)"

fun load_open_orders ::
  "MatchingEngine \<Rightarrow> (string \<times> OrderDict list) list \<Rightarrow> MatchingEngine \<times> (error + unit)" where
  "load_open_orders e [] = (e, Inr ())"
| "load_open_orders e ((s, ds) # rest) =
     (case load_orders (ensure_book e s) s ds of
        (e', Inl err) \<Rightarrow> (e', Inl err)
      | (e', Inr u) \<Rightarrow> load_open_orders e' rest)"

fun load_trades :: "MatchingEngine \<Rightarrow> (string \<times> Trade list) list \<Rightarrow> MatchingEngine" where
  "load_trades e [] = e"
| "load_trades e ((s, trs) # rest) =
     load_trades
       (foldl (\<lambda>e' tr. e'\<lparr>recent_trades := dict_set (recent_trades e') s
                 (deque_append (recent_trades_limit e') (dd_get (recent_trades e') s) (tr\<lparr>trade_symbol := s\<rparr>))\<rparr>)
          e trs) rest"

definition load_state :: "MatchingEngine \<Rightarrow> disk \<Rightarrow> MatchingEngine \<times> (error + unit)" where
  "load_state e d =
     (let data = persistence_load_state d in
      case load_open_orders e (open_orders data) of
        (e', Inl err) \<Rightarrow> (e', Inl err)
      | (e', Inr u) \<Rightarrow> (load_trades e' (saved_trades data), Inr ()))"

subsection \<open>Loading a snapshot\<close>

text \<open>\<open>resting_limit e\<close>: every order resting on a book of \<open>e\<close> has type \<open>limit\<close>,
  which is how \<open>submit_order\<close>, \<open>_submit_activated\<close> and \<open>load_state\<close> guard every call
  of \<open>add_limit\<close>.\<close>

definition resting_limit :: "MatchingEngine \<Rightarrow> bool" where
  "resting_limit e =
     list_all (\<lambda>sb. list_all (\<lambda>od. type od = limit) (book_orders (snd sb))) (books e)"

lemma dict_get_set_same [simp]: "dict_get (dict_set d k v) k = Some v"
  by (induction d) (auto simp: dict_get_def)

lemma dict_get_set_other [simp]: "k' \<noteq> k \<Longrightarrow> dict_get (dict_set d k v) k' = dict_get d k'"
  by (induction d) (auto simp: dict_get_def)

lemma triggers_set_book [simp]: "triggers (set_book e s b) = triggers e"
  by (simp add: set_book_def)

lemma books_set_book [simp]: "books (set_book e s b) = dict_set (books e) s b"
  by (simp add: set_book_def)

lemma triggers_ensure_book [simp]: "triggers (ensure_book e s) = triggers e"
  by (simp add: ensure_book_def)

lemma ensure_book_has: "dict_get (books (ensure_book e s)) s \<noteq> None"
  by (simp add: ensure_book_def)

lemma load_orders_ok:
  "list_all (\<lambda>d. \<not> is_trigger_type (od_type d)) ds \<Longrightarrow> dict_get (books e) s \<noteq> None \<Longrightarrow>
   triggers (fst (load_orders e s ds)) = triggers e \<and> snd (load_orders e s ds) = Inr ()"
proof (induction ds arbitrary: e)
  case Nil
  show ?case by simp
next
  case (Cons d ds)
  from Cons.prems(2) obtain book where book: "dict_get (books e) s = Some book" by auto
  from Cons.prems(1) have nt: "\<not> is_trigger_type (od_type d)"
    and rest: "list_all (\<lambda>d. \<not> is_trigger_type (od_type d)) ds" by simp_all
  have ty: "type (load_order s d) = od_type d" and pr: "price (load_order s d) = od_price d"
    by (simp_all add: load_order_def)
  show ?case
  proof (cases "type (load_order s d) = limit \<and> 0 < remaining (load_order s d)
                  \<and> price (load_order s d) \<noteq> None")
    case True
    then obtain p where p: "price (load_order s d) = Some p" by auto
    obtain book' where add: "add_limit book (load_order s d) = Inr book'"
      by (simp add: add_limit_def p Let_def)
    let ?e = "(set_book e s book')\<lparr>order_symbol_index :=
                dict_set (order_symbol_index e) (order_id (load_order s d)) s\<rparr>"
    have "triggers (fst (load_orders ?e s ds)) = triggers ?e \<and> snd (load_orders ?e s ds) = Inr ()"
      by (rule Cons.IH [OF rest]) simp
    then show ?thesis using True by (simp add: book add Let_def)
  next
    case False
    have "triggers (fst (load_orders e s ds)) = triggers e \<and> snd (load_orders e s ds) = Inr ()"
      by (rule Cons.IH [OF rest Cons.prems(2)])
    then show ?thesis using False nt by (auto simp: Let_def ty)
  qed
qed

lemma load_open_orders_ok:
  "list_all (\<lambda>sd. list_all (\<lambda>d. \<not> is_trigger_type (od_type d)) (snd sd)) data \<Longrightarrow>
   triggers (fst (load_open_orders e data)) = triggers e \<and> snd (load_open_orders e data) = Inr ()"
proof (induction data arbitrary: e)
  case Nil show ?case by simp
next
  case (Cons sd data)
  obtain s ds where sd: "sd = (s, ds)" by (cases sd)
  from Cons.prems have ds: "list_all (\<lambda>d. \<not> is_trigger_type (od_type d)) ds"
    and rest: "list_all (\<lambda>sd. list_all (\<lambda>d. \<not> is_trigger_type (od_type d)) (snd sd)) data"
    by (simp_all add: sd)
  from load_orders_ok [OF ds ensure_book_has, of e s]
  have lo: "triggers (fst (load_orders (ensure_book e s) s ds)) = triggers e"
    "snd (load_orders (ensure_book e s) s ds) = Inr ()" by simp_all
  obtain e' where e': "load_orders (ensure_book e s) s ds = (e', Inr ())"
    using lo(2) by (cases "load_orders (ensure_book e s) s ds") auto
  from lo(1) e' have te: "triggers e' = triggers e" by simp
  from Cons.IH [OF rest, of e'] show ?case by (simp add: sd e' te)
qed

lemma triggers_load_trades [simp]: "triggers (load_trades e data) = triggers e"
proof (induction data arbitrary: e)
  case Nil show ?case by simp
next
  case (Cons st data)
  obtain s trs where st: "st = (s, trs)" by (cases st)
  have "triggers (foldl (\<lambda>e' tr. e'\<lparr>recent_trades := dict_set (recent_trades e') s
                 (deque_append (recent_trades_limit e') (dd_get (recent_trades e') s) (tr\<lparr>trade_symbol := s\<rparr>))\<rparr>)
          e trs) = triggers e" for e
    by (induction trs arbitrary: e) simp_all
  with Cons.IH show ?case by (simp add: st)
qed

text \<open>\<open>no_trigger_saved d\<close>: the committed file, if any, holds no order dictionary of
  type stop, stop-limit or take-profit. \<open>no_recent_trades e\<close>: every recent-trade ring
  of \<open>e\<close> is empty, which is when \<open>json.dump\<close> accepts the dictionary.\<close>

definition no_trigger_saved :: "disk \<Rightarrow> bool" where
  "no_trigger_saved d =
     list_all (\<lambda>sd. list_all (\<lambda>x. \<not> is_trigger_type (od_type x)) (snd sd))
       (open_orders (persistence_load_state d))"

definition no_recent_trades :: "MatchingEngine \<Rightarrow> bool" where
  "no_recent_trades e = list_all (\<lambda>st. snd st = []) (recent_trades e)"

lemma book_orders_sides: "book_orders b = level_orders (bids b) @ level_orders (asks b)"
  by (simp add: book_orders_def level_orders_def)

lemma state_dict_no_trigger:
  assumes "resting_limit e"
  shows "list_all (\<lambda>sd. list_all (\<lambda>x. \<not> is_trigger_type (od_type x)) (snd sd))
           (open_orders (state_dict e))"
proof -
  have nt: "type od = limit \<Longrightarrow> \<not> is_trigger_type (od_type (order_dict od))" for od
    by (simp add: order_dict_def is_trigger_type_def)
  from assms show ?thesis
    by (auto simp: resting_limit_def state_dict_def list_all_iff nt)
qed

lemma load_state_no_trigger:
  assumes "no_trigger_saved d"
  shows "triggers (fst (load_state new_engine d)) = [] \<and> snd (load_state new_engine d) = Inr ()"
proof -
  let ?data = "persistence_load_state d"
  from load_open_orders_ok [OF assms [unfolded no_trigger_saved_def], of new_engine]
  obtain e' where e': "load_open_orders new_engine (open_orders ?data) = (e', Inr ())"
    and te: "triggers e' = triggers new_engine"
    by (cases "load_open_orders new_engine (open_orders ?data)") auto
  have "triggers new_engine = []" by (simp add: new_engine_def)
  with e' te show ?thesis by (simp add: load_state_def Let_def)
qed

lemma save_state_result:
  "save_state e d =
     (if no_recent_trades e then (Some (state_dict e), Inr ()) else (d, Inl TypeError))"
  by (simp add: save_state_def persistence_save_state_def json_serializable_def
      no_recent_trades_def state_dict_def)

subsection \<open>Submits that match nothing\<close>

lemma dict_set_same_value: "dict_get d k = Some v \<Longrightarrow> dict_set d k v = d"
  by (induction d) (auto simp: dict_get_def split: if_splits)

lemma set_book_same: "dict_get (books e) s = Some b \<Longrightarrow> set_book e s b = e"
  by (simp add: set_book_def dict_set_same_value)

text \<open>The engine as \<open>submit_order\<close> has it once the book exists and the order id is
  minted.\<close>

definition accepted :: "MatchingEngine \<Rightarrow> OrderRequest \<Rightarrow> MatchingEngine" where
  "accepted e req =
     (ensure_book e (req_symbol req))
       \<lparr>id_counter := Suc (id_counter (ensure_book e (req_symbol req)))\<rparr>"

definition minted :: "MatchingEngine \<Rightarrow> OrderRequest \<Rightarrow> string \<Rightarrow> Order" where
  "minted e req now =
     make_order (next_id ''ord'' (id_counter (ensure_book e (req_symbol req)))) req now"

lemma accepted_book: "dict_get (books (accepted e req)) (req_symbol req) \<noteq> None"
  by (simp add: accepted_def ensure_book_has)

lemma minted_fields [simp]:
  "type (minted e req now) = req_type req"
  "remaining (minted e req now) = req_quantity req"
  "price (minted e req now) = req_price req"
  "side (minted e req now) = req_side req"
  "quantity (minted e req now) = req_quantity req"
  by (simp_all add: minted_def make_order_def)

lemma match_nothing:
  "\<not> 0 < remaining incoming \<or> (type incoming \<noteq> market \<and> price incoming = None) \<Longrightarrow>
   match b incoming = ((b, incoming), Inr [])"
  unfolding match_def by (rule match_loop_stop) (auto simp: price_ok_def)

lemma submit_order_no_match:
  assumes nt: "\<not> is_trigger_type (req_type req)"
    and quiet: "\<not> 0 < req_quantity req \<or> (req_type req \<noteq> market \<and> req_price req = None)"
  shows "submit_order e req now =
     (if 0 < req_quantity req \<and> req_type req = limit
      then (accepted e req, Inl AssertionError)
      else (accepted e req, Inr (minted e req now, [])))"
proof -
  obtain book where book: "dict_get (books (accepted e req)) (req_symbol req) = Some book"
    using accepted_book [of e req] by auto
  have m: "match book (minted e req now) = ((book, minted e req now), Inr [])"
    using quiet by (intro match_nothing) auto
  have sb: "set_book (accepted e req) (req_symbol req) book = accepted e req"
    using book by (rule set_book_same)
  have add: "0 < req_quantity req \<Longrightarrow> req_type req = limit \<Longrightarrow>
      add_limit book (minted e req now) = Inl AssertionError"
    using quiet by (auto simp: add_limit_def is_trigger_type_def)
  show ?thesis
    unfolding submit_order_def Let_def accepted_def [symmetric] minted_def [symmetric]
    using nt by (auto simp: book m sb add)
qed

lemma submit_order_trigger:
  assumes "is_trigger_type (req_type req)"
  shows "submit_order e req now =
     ((accepted e req)
        \<lparr>triggers := dict_set (triggers (accepted e req)) (req_symbol req)
            (dd_get (triggers (accepted e req)) (req_symbol req) @ [minted e req now]),
         order_symbol_index := dict_set (order_symbol_index (accepted e req))
            (order_id (minted e req now)) (req_symbol req)\<rparr>,
      Inr (minted e req now, []))"
proof -
  obtain book where book: "dict_get (books (accepted e req)) (req_symbol req) = Some book"
    using accepted_book [of e req] by auto
  show ?thesis
    unfolding submit_order_def Let_def accepted_def [symmetric] minted_def [symmetric]
    using assms by (simp add: book)
qed

subsection \<open>Liquidity within a limit price\<close>

text \<open>\<open>within_limit sd cap p\<close>: the level price \<open>p\<close> is crossable for a taker on side
  \<open>sd\<close> under the limit price \<open>cap\<close>, at most the limit for a buy and at least the limit
  for a sell; no price is crossable under a null limit, as in \<open>_crossable\<close>.
  \<open>fok_liquidity\<close> sums the remaining quantity resting on the opposite side at such
  prices.\<close>

definition within_limit :: "Side \<Rightarrow> decimal option \<Rightarrow> decimal \<Rightarrow> bool" where
  "within_limit sd cap p =
     (case cap of None \<Rightarrow> False | Some c \<Rightarrow> if sd = buy then p \<le> c else c \<le> p)"

definition liquidity :: "Side \<Rightarrow> decimal option \<Rightarrow> (decimal \<times> Order) list \<Rightarrow> decimal" where
  "liquidity sd cap ms =
     sum_list (map (\<lambda>pm. remaining (snd pm)) (filter (\<lambda>pm. within_limit sd cap (fst pm)) ms))"

definition fok_liquidity :: "OrderBook \<Rightarrow> Side \<Rightarrow> decimal option \<Rightarrow> decimal" where
  "fok_liquidity b sd cap = liquidity sd cap (makers (view sd b))"

definition no_better :: "Side \<Rightarrow> decimal \<times> Order \<Rightarrow> decimal \<times> Order \<Rightarrow> bool" where
  "no_better sd x y = (if sd = buy then fst x \<le> fst y else fst y \<le> fst x)"

lemma liquidity_Nil [simp]: "liquidity sd cap [] = 0"
  by (simp add: liquidity_def)

lemma liquidity_Cons:
  "liquidity sd cap ((p, m) # ms) =
     (if within_limit sd cap p then remaining m + liquidity sd cap ms else liquidity sd cap ms)"
  by (simp add: liquidity_def)

lemma liquidity_append: "liquidity sd cap (xs @ ys) = liquidity sd cap xs + liquidity sd cap ys"
  by (simp add: liquidity_def)

lemma liquidity_nonneg:
  "list_all (\<lambda>pm. 0 < remaining (snd pm)) ms \<Longrightarrow> 0 \<le> liquidity sd cap ms"
  by (induction ms) (auto simp: liquidity_Cons)

lemma within_limit_worse:
  "\<not> within_limit sd cap p \<Longrightarrow> (if sd = buy then p \<le> p' else p' \<le> p) \<Longrightarrow>
   \<not> within_limit sd cap p'"
  by (auto simp: within_limit_def split: option.splits if_splits)

lemma liquidity_beyond:
  "\<forall>x \<in> set ms. \<not> within_limit sd cap (fst x) \<Longrightarrow> liquidity sd cap ms = 0"
  by (induction ms) (auto simp: liquidity_Cons)

lemma liquidity_sorted_beyond:
  assumes "sorted_wrt (no_better sd) ((p, m) # ms)" and "\<not> within_limit sd cap p"
  shows "liquidity sd cap ((p, m) # ms) = 0"
proof (rule liquidity_beyond)
  show "\<forall>x \<in> set ((p, m) # ms). \<not> within_limit sd cap (fst x)"
  proof
    fix x assume "x \<in> set ((p, m) # ms)"
    then have "x = (p, m) \<or> no_better sd (p, m) x" using assms(1) by auto
    then show "\<not> within_limit sd cap (fst x)"
      using assms(2) within_limit_worse [of sd cap p "fst x"]
      by (auto simp: no_better_def split: if_splits)
  qed
qed

lemma price_ok_within:
  "type incoming \<noteq> market \<Longrightarrow>
   price_ok incoming p = within_limit (side incoming) (price incoming) p"
  by (simp add: price_ok_def within_limit_def split: option.splits)

text \<open>The quantity a limit-like taker fills is the smaller of its remaining quantity and
  the liquidity within its limit.\<close>

lemma fifo_fills_qty:
  assumes "type incoming \<noteq> market" and "0 \<le> remaining incoming"
    and "sorted_wrt (no_better (side incoming)) ms"
    and "list_all (\<lambda>pm. 0 < remaining (snd pm)) ms"
  shows "filled_qty (fifo_fills incoming ms)
           = min (remaining incoming) (liquidity (side incoming) (price incoming) ms)"
  using assms
proof (induction incoming ms rule: fifo_fills.induct)
  case (1 incoming)
  then show ?case by simp
next
  case (2 incoming p m ms)
  let ?sd = "side incoming" and ?cap = "price incoming"
  have nn: "0 \<le> liquidity ?sd ?cap ms"
    using "2.prems"(4) by (simp add: liquidity_nonneg)
  have mpos: "0 < remaining m" using "2.prems"(4) by simp
  show ?case
  proof (cases "0 < remaining incoming \<and> price_ok incoming p")
    case False
    then have ff: "fifo_fills incoming ((p, m) # ms) = []"
      by (simp only: fifo_fills.simps if_False)
    show ?thesis
    proof (cases "0 < remaining incoming")
      case True
      with False have "\<not> within_limit ?sd ?cap p"
        using "2.prems"(1) by (simp add: price_ok_within)
      with "2.prems"(3) have "liquidity ?sd ?cap ((p, m) # ms) = 0"
        by (rule liquidity_sorted_beyond)
      with "2.prems"(2) show ?thesis unfolding ff by simp
    next
      case neg: False
      with "2.prems"(2) have z: "remaining incoming = 0" by simp
      have "0 \<le> liquidity ?sd ?cap ((p, m) # ms)"
        using "2.prems"(4) by (rule liquidity_nonneg)
      with z show ?thesis unfolding ff by simp
    qed
  next
    case True
    define q where "q = min (remaining incoming) (remaining m)"
    define inc1 where "inc1 = incoming\<lparr>remaining := remaining incoming - q\<rparr>"
    define m1 where "m1 = m\<lparr>remaining := remaining m - q\<rparr>"
    have wl: "within_limit ?sd ?cap p"
      using True "2.prems"(1) by (simp add: price_ok_within)
    have ih: "filled_qty (fifo_fills inc1 ms)
           = min (remaining inc1) (liquidity (side inc1) (price inc1) ms)"
    proof (rule "2.IH" [OF True q_def inc1_def m1_def])
      show "type inc1 \<noteq> market" using "2.prems"(1) by (simp add: inc1_def)
      show "0 \<le> remaining inc1" by (simp add: inc1_def q_def)
      show "sorted_wrt (no_better (side inc1)) ms" using "2.prems"(3) by (simp add: inc1_def)
      show "list_all (\<lambda>pm. 0 < remaining (snd pm)) ms" using "2.prems"(4) by simp
    qed
    have f: "fifo_fills incoming ((p, m) # ms) = (m1, inc1, p, q) # fifo_fills inc1 ms"
      using True by (simp add: Let_def q_def inc1_def m1_def)
    have "filled_qty (fifo_fills incoming ((p, m) # ms))
        = q + min (remaining incoming - q) (liquidity ?sd ?cap ms)"
      unfolding f using ih by (simp add: inc1_def)
    also have "\<dots> = min (remaining incoming) (remaining m + liquidity ?sd ?cap ms)"
      using nn mpos by (simp add: q_def min_def)
    finally show ?thesis by (simp only: liquidity_Cons wl if_True)
  qed
qed


lemma makers_sorted:
  "view_inv sd V \<Longrightarrow> sorted_wrt (no_better sd) (makers V)"
proof (induction V)
  case Nil show ?case by simp
next
  case (Cons a V)
  obtain k l where a: "a = (k, l)" by (cases a)
  from Cons.prems have later: "\<forall>k' \<in> fst ` set V. if sd = buy then k < k' else k' < k"
    and inv: "view_inv sd V"
    unfolding a view_inv_Cons by simp_all
  have head: "sorted_wrt (no_better sd) (map (Pair k) q)" for q :: "Order list"
    by (induction q) (auto simp: no_better_def)
  have cross: "no_better sd x y"
    if "x \<in> set (map (Pair k) (queue l))" and "y \<in> set (makers V)" for x y
  proof -
    from that(1) have "fst x = k" by auto
    moreover from that(2) makers_keys [of V] have "fst y \<in> fst ` set V" by blast
    ultimately show ?thesis using later by (auto simp: no_better_def split: if_splits)
  qed
  show ?case
    unfolding a makers_Cons sorted_wrt_append
    using head Cons.IH [OF inv] cross by blast
qed

lemma makers_positive:
  "list_all (\<lambda>od. 0 < remaining od) (level_orders V) \<Longrightarrow>
   list_all (\<lambda>pm. 0 < remaining (snd pm)) (makers V)"
  by (induction V) (auto simp: level_orders_Cons makers_def list_all_iff)

lemma level_orders_rev: "set (level_orders (rev d)) = set (level_orders d)"
  by (induction d) (auto simp: level_orders_def)

lemma view_positive:
  "list_all (\<lambda>od. 0 < remaining od) (level_orders (get_side_book b (opposite sd))) \<Longrightarrow>
   list_all (\<lambda>pm. 0 < remaining (snd pm)) (makers (view sd b))"
proof (rule makers_positive)
  assume h: "list_all (\<lambda>od. 0 < remaining od) (level_orders (get_side_book b (opposite sd)))"
  have "set (level_orders (view sd b)) = set (level_orders (get_side_book b (opposite sd)))"
    by (cases sd) (simp_all add: view_def get_side_book_def opposite_def level_orders_rev)
  with h show "list_all (\<lambda>od. 0 < remaining od) (level_orders (view sd b))"
    by (simp add: list_all_iff)
qed

text \<open>The inner precheck loop succeeds exactly when the queue covers the need.\<close>

lemma fok_queue_sum:
  "0 < need \<Longrightarrow> list_all (\<lambda>od. 0 < remaining od) q \<Longrightarrow>
   fok_queue need q =
     (if need \<le> sum_list (map remaining q) then None
      else Some (need - sum_list (map remaining q)))"
proof (induction q arbitrary: need)
  case Nil then show ?case by simp
next
  case (Cons od q)
  from Cons.prems have pos: "0 < remaining od" and rest: "list_all (\<lambda>od. 0 < remaining od) q"
    by simp_all
  have nn: "0 \<le> sum_list (map remaining q)"
    using rest by (induction q) auto
  show ?case
  proof (cases "need - remaining od \<le> 0")
    case True
    with nn show ?thesis by (simp add: Let_def)
  next
    case False
    then have "0 < need - remaining od" by simp
    from Cons.IH [OF this rest] False show ?thesis by (auto simp: Let_def algebra_simps)
  qed
qed

lemma liquidity_level:
  "liquidity sd cap (map (Pair k) q) =
     (if within_limit sd cap k then sum_list (map remaining q) else 0)"
  by (induction q) (auto simp: liquidity_Cons)

lemma fok_levels_liquidity:
  assumes "0 < need" and "view_inv sd V"
    and "list_all (\<lambda>od. 0 < remaining od) (level_orders V)"
    and "\<And>p. beyond p = (\<not> within_limit sd cap p)"
  shows "fok_levels beyond need V = (need \<le> liquidity sd cap (makers V))"
  using assms(1-3)
proof (induction V arbitrary: need)
  case Nil
  then show ?case by simp
next
  case (Cons a V)
  obtain k l where a: "a = (k, l)" by (cases a)
  from Cons.prems(2) have inv: "view_inv sd V" unfolding a view_inv_Cons by simp
  from Cons.prems(3) have qpos: "list_all (\<lambda>od. 0 < remaining od) (queue l)"
    and rest: "list_all (\<lambda>od. 0 < remaining od) (level_orders V)"
    by (simp_all add: a level_orders_Cons)
  have nn: "0 \<le> liquidity sd cap (makers V)"
    using makers_positive [OF rest] by (rule liquidity_nonneg)
  show ?case
  proof (cases "beyond k")
    case True
    then have nw: "\<not> within_limit sd cap k" by (simp add: assms(4))
    have "liquidity sd cap (makers ((k, l) # V)) = 0"
    proof (rule liquidity_beyond, rule ballI)
      fix x assume "x \<in> set (makers ((k, l) # V))"
      with makers_keys [of "(k, l) # V"] have "fst x \<in> fst ` set ((k, l) # V)" by blast
      then have "if sd = buy then k \<le> fst x else fst x \<le> k"
        using Cons.prems(2) unfolding a view_inv_Cons by (auto split: if_splits)
      with nw show "\<not> within_limit sd cap (fst x)" by (rule within_limit_worse)
    qed
    with True Cons.prems(1) show ?thesis by (simp add: a)
  next
    case False
    then have w: "within_limit sd cap k" by (simp add: assms(4))
    have lq: "liquidity sd cap (makers ((k, l) # V))
        = sum_list (map remaining (queue l)) + liquidity sd cap (makers V)"
      by (simp add: makers_Cons liquidity_append liquidity_level w)
    show ?thesis
    proof (cases "need \<le> sum_list (map remaining (queue l))")
      case True
      then have "fok_queue need (queue l) = None"
        using fok_queue_sum [OF Cons.prems(1) qpos] by simp
      with False True nn show ?thesis by (simp add: a lq)
    next
      case nc: False
      then have fq: "fok_queue need (queue l) = Some (need - sum_list (map remaining (queue l)))"
        using fok_queue_sum [OF Cons.prems(1) qpos] by simp
      from nc have "0 < need - sum_list (map remaining (queue l))" by simp
      from Cons.IH [OF this inv rest] False show ?thesis
        by (simp add: a lq fq algebra_simps)
    qed
  qed
qed

lemma view_orders_positive:
  "list_all (\<lambda>od. 0 < remaining od) (level_orders (get_side_book b (opposite sd))) \<Longrightarrow>
   list_all (\<lambda>od. 0 < remaining od) (level_orders (view sd b))"
proof -
  assume h: "list_all (\<lambda>od. 0 < remaining od) (level_orders (get_side_book b (opposite sd)))"
  have "set (level_orders (view sd b)) = set (level_orders (get_side_book b (opposite sd)))"
    by (cases sd) (simp_all add: view_def get_side_book_def opposite_def level_orders_rev)
  with h show ?thesis by (simp add: list_all_iff)
qed

lemma precheck_fok_liquidity:
  assumes book: "dict_get (books e) s = Some book"
    and pos: "0 < qty"
    and inv: "side_inv (get_side_book book (opposite sd))"
    and rem: "list_all (\<lambda>od. 0 < remaining od) (level_orders (get_side_book book (opposite sd)))"
  shows "precheck_fok e s sd (Some c) qty = Inr (qty \<le> fok_liquidity book sd (Some c))"
proof -
  have vi: "view_inv sd (view sd book)" using inv by (rule side_inv_view)
  have vp: "list_all (\<lambda>od. 0 < remaining od) (level_orders (view sd book))"
    using rem by (rule view_orders_positive)
  show ?thesis
  proof (cases sd)
    case buy
    have "fok_levels (\<lambda>p. c < p) qty (view sd book) = (qty \<le> liquidity sd (Some c) (makers (view sd book)))"
      by (rule fok_levels_liquidity [OF pos vi vp]) (auto simp: within_limit_def buy)
    then show ?thesis by (simp add: precheck_fok_def book buy view_def fok_liquidity_def)
  next
    case sell
    have "fok_levels (\<lambda>p. p < c) qty (view sd book) = (qty \<le> liquidity sd (Some c) (makers (view sd book)))"
      by (rule fok_levels_liquidity [OF pos vi vp]) (auto simp: within_limit_def sell)
    then show ?thesis by (simp add: precheck_fok_def book sell view_def fok_liquidity_def)
  qed
qed

lemma match_limit_like:
  assumes ty: "type incoming \<noteq> market" and pos: "0 \<le> remaining incoming"
    and inv: "side_inv (get_side_book b (opposite (side incoming)))"
    and rem: "list_all (\<lambda>od. 0 < remaining od)
                (level_orders (get_side_book b (opposite (side incoming))))"
  shows "\<exists>b' fills. match b incoming
           = ((b', incoming\<lparr>remaining := remaining incoming
                  - min (remaining incoming) (fok_liquidity b (side incoming) (price incoming))\<rparr>),
              Inr fills)"
proof -
  let ?ms = "makers (view (side incoming) b)"
  have vi: "view_inv (side incoming) (view (side incoming) b)" using inv by (rule side_inv_view)
  have q: "filled_qty (fifo_fills incoming ?ms)
      = min (remaining incoming) (liquidity (side incoming) (price incoming) ?ms)"
    by (rule fifo_fills_qty [OF ty pos makers_sorted [OF vi] view_positive [OF rem]])
  have "snd (match b incoming) = Inr (fifo_fills incoming ?ms)"
    using match_loop_fills [OF vi, of "[]"] by (simp add: match_def)
  moreover have "snd (fst (match b incoming))
      = incoming\<lparr>remaining := remaining incoming - filled_qty (fifo_fills incoming ?ms)\<rparr>"
    using match_loop_taker [OF vi, of "[]"] by (simp add: match_def)
  ultimately show ?thesis
    unfolding q fok_liquidity_def by (cases "match b incoming") auto
qed


subsection \<open>Recording the fills of a match\<close>

text \<open>A fill can be recorded when its fees, its price and its quantity can be
  quantized. \<open>fill_record\<close> is what the trade of a fill has to carry, \<open>trade_record\<close>
  what a recorded trade carries.\<close>

definition recordable :: "MatchingEngine \<Rightarrow> RawTrade \<Rightarrow> bool" where
  "recordable e f =
     (case f of (maker, taker, p, qty) \<Rightarrow>
        quantizable ((p * qty * maker_rebate_bps e) / 10000)
        \<and> quantizable ((p * qty * taker_fee_bps e) / 10000)
        \<and> quantizable p \<and> quantizable qty)"

type_synonym trade_fields =
  "string \<times> string \<times> string \<times> string \<times> Side \<times> (error + decimal) \<times> (error + decimal)
     \<times> (error + decimal \<times> decimal)"

definition fill_record :: "MatchingEngine \<Rightarrow> string \<Rightarrow> string \<Rightarrow> RawTrade \<Rightarrow> trade_fields" where
  "fill_record e s now f =
     (case f of (maker, taker, p, qty) \<Rightarrow>
        (s, now, order_id maker, order_id taker, side taker, quantize_8 p, quantize_8 qty,
         fees e p qty))"

definition trade_record :: "Trade \<Rightarrow> trade_fields" where
  "trade_record t =
     (trade_symbol t, trade_timestamp t, maker_order_id t, taker_order_id t, aggressor_side t,
      Inr (trade_price t), Inr (trade_quantity t), Inr (maker_fee t, taker_fee t))"

lemma recordable_cong:
  "maker_rebate_bps e' = maker_rebate_bps e \<Longrightarrow> taker_fee_bps e' = taker_fee_bps e \<Longrightarrow>
   recordable e' = recordable e"
  by (auto simp: recordable_def fun_eq_iff)

lemma fees_cong:
  "maker_rebate_bps e' = maker_rebate_bps e \<Longrightarrow> taker_fee_bps e' = taker_fee_bps e \<Longrightarrow>
   fees e' = fees e"
  by (simp add: fees_def fun_eq_iff)

lemma fill_record_cong:
  "maker_rebate_bps e' = maker_rebate_bps e \<Longrightarrow> taker_fee_bps e' = taker_fee_bps e \<Longrightarrow>
   fill_record e' = fill_record e"
  by (simp add: fill_record_def fun_eq_iff fees_cong [of e' e])

lemma fees_recordable:
  "recordable e (maker, taker, p, qty) \<Longrightarrow> \<exists>mf tf. fees e p qty = Inr (mf, tf)"
  by (auto simp: fees_def recordable_def Let_def quantize_8_def)

lemma dict_set_twice: "dict_set (dict_set d k v) k w = dict_set d k w"
  by (induction d) auto

lemma dd_get_set_same: "dd_get (dict_set d k v) k = v"
  by (simp add: dd_get_def)

lemma record_trades_ok:
  "list_all (recordable e) raw \<Longrightarrow>
   \<exists>new. record_trades_and_broadcast e s now raw acc
       = (e\<lparr>id_counter := id_counter e + length raw,
             recent_trades :=
               (if raw = [] then recent_trades e
                else dict_set (recent_trades e) s
                       (foldl (deque_append (recent_trades_limit e))
                          (dd_get (recent_trades e) s) new))\<rparr>,
          Inr (acc @ new))
     \<and> map trade_record new = map (fill_record e s now) raw
     \<and> map trade_id new = map (next_id ''tr'') [id_counter e ..< id_counter e + length raw]"
proof (induction raw arbitrary: e acc)
  case Nil
  show ?case by simp
next
  case (Cons f raw)
  obtain maker taker p qty where f: "f = (maker, taker, p, qty)" by (cases f)
  from Cons.prems have rf: "recordable e (maker, taker, p, qty)"
    and rest: "list_all (recordable e) raw" by (simp_all add: f)
  from fees_recordable [OF rf] obtain mf tf where fe: "fees e p qty = Inr (mf, tf)" by blast
  from rf obtain qp qq where qp: "quantize_8 p = Inr qp" and qq: "quantize_8 qty = Inr qq"
    by (auto simp: recordable_def quantize_8_def)
  define tr where "tr = \<lparr>trade_id = next_id ''tr'' (id_counter e), trade_symbol = s,
                              trade_price = qp, trade_quantity = qq,
                              aggressor_side = side taker, maker_order_id = order_id maker,
                              taker_order_id = order_id taker, trade_timestamp = now,
                              maker_fee = mf, taker_fee = tf\<rparr>"
  define e1 where "e1 = e\<lparr>id_counter := Suc (id_counter e),
      recent_trades := dict_set (recent_trades e) s
         (deque_append (recent_trades_limit e) (dd_get (recent_trades e) s) tr)\<rparr>"
  have step: "record_trades_and_broadcast e s now (f # raw) acc
      = record_trades_and_broadcast e1 s now raw (acc @ [tr])"
    by (simp add: f fe qp qq Let_def tr_def e1_def)
  have bps: "maker_rebate_bps e1 = maker_rebate_bps e" "taker_fee_bps e1 = taker_fee_bps e"
    by (simp_all add: e1_def)
  have "recordable e1 = recordable e" using bps by (rule recordable_cong)
  with rest have "list_all (recordable e1) raw" by simp
  from Cons.IH [OF this, of "acc @ [tr]"]
  obtain new where ih:
    "record_trades_and_broadcast e1 s now raw (acc @ [tr])
       = (e1\<lparr>id_counter := id_counter e1 + length raw,
             recent_trades :=
               (if raw = [] then recent_trades e1
                else dict_set (recent_trades e1) s
                       (foldl (deque_append (recent_trades_limit e1))
                          (dd_get (recent_trades e1) s) new))\<rparr>,
          Inr ((acc @ [tr]) @ new))"
    "map trade_record new = map (fill_record e1 s now) raw"
    "map trade_id new = map (next_id ''tr'') [id_counter e1 ..< id_counter e1 + length raw]"
    by blast
  have fr: "fill_record e1 = fill_record e" using bps by (rule fill_record_cong)
  have trr: "trade_record tr = fill_record e s now f"
    by (simp add: trade_record_def fill_record_def f tr_def qp qq fe)
  have ids: "[id_counter e ..< id_counter e + length (f # raw)]
      = id_counter e # [id_counter e1 ..< id_counter e1 + length raw]"
    by (simp add: e1_def upt_rec)
  have len: "length new = length raw" using ih(2) by (metis length_map)
  have eng: "e1\<lparr>id_counter := id_counter e1 + length raw,
             recent_trades :=
               (if raw = [] then recent_trades e1
                else dict_set (recent_trades e1) s
                       (foldl (deque_append (recent_trades_limit e1))
                          (dd_get (recent_trades e1) s) new))\<rparr>
      = e\<lparr>id_counter := id_counter e + length (f # raw),
             recent_trades := dict_set (recent_trades e) s
                       (foldl (deque_append (recent_trades_limit e))
                          (dd_get (recent_trades e) s) (tr # new))\<rparr>"
  proof (cases "raw = []")
    case True
    with len have "new = []" by simp
    with True show ?thesis by (simp add: e1_def)
  next
    case False
    then show ?thesis by (simp add: e1_def dict_set_twice dd_get_set_same)
  qed
  show ?case
  proof (intro exI [of _ "tr # new"] conjI)
    show "record_trades_and_broadcast e s now (f # raw) acc
       = (e\<lparr>id_counter := id_counter e + length (f # raw),
             recent_trades :=
               (if f # raw = [] then recent_trades e
                else dict_set (recent_trades e) s
                       (foldl (deque_append (recent_trades_limit e))
                          (dd_get (recent_trades e) s) (tr # new)))\<rparr>,
          Inr (acc @ tr # new))"
      unfolding step ih(1) eng by simp
    show "map trade_record (tr # new) = map (fill_record e s now) (f # raw)"
      using ih(2) trr by (simp add: fr)
    show "map trade_id (tr # new)
        = map (next_id ''tr'') [id_counter e ..< id_counter e + length (f # raw)]"
      unfolding ids using ih(3) by (simp add: tr_def)
  qed
qed

lemma record_trades_fail:
  "\<not> list_all (recordable e) raw \<Longrightarrow>
   snd (record_trades_and_broadcast e s now raw acc) = Inl InvalidOperation
   \<and> books (fst (record_trades_and_broadcast e s now raw acc)) = books e
   \<and> triggers (fst (record_trades_and_broadcast e s now raw acc)) = triggers e
   \<and> order_symbol_index (fst (record_trades_and_broadcast e s now raw acc))
       = order_symbol_index e"
proof (induction raw arbitrary: e acc)
  case Nil
  then show ?case by simp
next
  case (Cons f raw)
  obtain maker taker p qty where f: "f = (maker, taker, p, qty)" by (cases f)
  show ?case
  proof (cases "recordable e f")
    case False
    show ?thesis
    proof (cases "fees e p qty")
      case (Inl err)
      then have "err = InvalidOperation"
        by (auto simp: fees_def Let_def quantize_8_def split: sum.splits if_splits)
      with Inl show ?thesis by (simp add: f)
    next
      case (Inr mt)
      obtain mf tf where mt: "mt = (mf, tf)" by (cases mt)
      from Inr have "quantizable ((p * qty * maker_rebate_bps e) / 10000)
          \<and> quantizable ((p * qty * taker_fee_bps e) / 10000)"
        by (auto simp: fees_def Let_def quantize_8_def split: sum.splits if_splits)
      with False have "\<not> quantizable p \<or> \<not> quantizable qty"
        by (auto simp: recordable_def f)
      then show ?thesis
        by (auto simp: f Inr mt Let_def quantize_8_def)
    qed
  next
    case True
    then have rf: "recordable e (maker, taker, p, qty)" by (simp add: f)
    from fees_recordable [OF rf] obtain mf tf where fe: "fees e p qty = Inr (mf, tf)" by blast
    from rf obtain qp qq where qp: "quantize_8 p = Inr qp" and qq: "quantize_8 qty = Inr qq"
      by (auto simp: recordable_def quantize_8_def)
    define tr where "tr = \<lparr>trade_id = next_id ''tr'' (id_counter e), trade_symbol = s,
                              trade_price = qp, trade_quantity = qq,
                              aggressor_side = side taker, maker_order_id = order_id maker,
                              taker_order_id = order_id taker, trade_timestamp = now,
                              maker_fee = mf, taker_fee = tf\<rparr>"
    define e1 where "e1 = e\<lparr>id_counter := Suc (id_counter e),
      recent_trades := dict_set (recent_trades e) s
         (deque_append (recent_trades_limit e) (dd_get (recent_trades e) s) tr)\<rparr>"
    have step: "record_trades_and_broadcast e s now (f # raw) acc
      = record_trades_and_broadcast e1 s now raw (acc @ [tr])"
      by (simp add: f fe qp qq Let_def tr_def e1_def)
    have "recordable e1 = recordable e" by (rule recordable_cong) (simp_all add: e1_def)
    with Cons.prems True have "\<not> list_all (recordable e1) raw" by simp
    from Cons.IH [OF this, of "acc @ [tr]"] show ?thesis
      by (simp add: step) (simp add: e1_def)
  qed
qed

subsection \<open>Fill-or-kill submits\<close>

lemma fok_fills:
  assumes ty: "type incoming \<noteq> market" and pos: "0 < remaining incoming"
    and inv: "side_inv (get_side_book b (opposite (side incoming)))"
    and rem: "list_all (\<lambda>od. 0 < remaining od)
                (level_orders (get_side_book b (opposite (side incoming))))"
    and enough: "remaining incoming \<le> fok_liquidity b (side incoming) (price incoming)"
  shows "match b incoming
           = ((fst (fst (match b incoming)), incoming\<lparr>remaining := 0\<rparr>),
              Inr (fifo_fills incoming (makers (view (side incoming) b))))"
    and "filled_qty (fifo_fills incoming (makers (view (side incoming) b))) = remaining incoming"
    and "fifo_fills incoming (makers (view (side incoming) b)) \<noteq> []"
proof -
  let ?ms = "makers (view (side incoming) b)"
  have vi: "view_inv (side incoming) (view (side incoming) b)" using inv by (rule side_inv_view)
  have "filled_qty (fifo_fills incoming ?ms)
      = min (remaining incoming) (liquidity (side incoming) (price incoming) ?ms)"
    by (rule fifo_fills_qty [OF ty less_imp_le [OF pos] makers_sorted [OF vi] view_positive [OF rem]])
  with enough show q: "filled_qty (fifo_fills incoming ?ms) = remaining incoming"
    by (simp add: fok_liquidity_def)
  with pos show "fifo_fills incoming ?ms \<noteq> []" by auto
  have "snd (match b incoming) = Inr (fifo_fills incoming ?ms)"
    using match_loop_fills [OF vi, of "[]"] by (simp add: match_def)
  moreover have "snd (fst (match b incoming)) = incoming\<lparr>remaining := 0\<rparr>"
    using match_loop_taker [OF vi, of "[]"] by (simp add: match_def q)
  ultimately show "match b incoming
           = ((fst (fst (match b incoming)), incoming\<lparr>remaining := 0\<rparr>),
              Inr (fifo_fills incoming (makers (view (side incoming) b))))"
    by (cases "match b incoming") auto
qed

lemma accepted_fields:
  "recent_trades (accepted e req) = recent_trades e"
  "recent_trades_limit (accepted e req) = recent_trades_limit e"
  "maker_rebate_bps (accepted e req) = maker_rebate_bps e"
  "taker_fee_bps (accepted e req) = taker_fee_bps e"
  "triggers (accepted e req) = triggers e"
  "order_symbol_index (accepted e req) = order_symbol_index e"
  "id_counter (accepted e req) = Suc (id_counter e)"
  by (simp_all add: accepted_def ensure_book_def)

lemma submit_fok_reject:
  assumes fok: "req_type req = fok" and pos: "0 < req_quantity req"
    and book: "dict_get (books (accepted e req)) (req_symbol req) = Some book"
    and inv: "side_inv (get_side_book book (opposite (req_side req)))"
    and rem: "list_all (\<lambda>od. 0 < remaining od)
                (level_orders (get_side_book book (opposite (req_side req))))"
    and short: "\<not> req_quantity req \<le> fok_liquidity book (req_side req) (req_price req)"
  shows "submit_order e req now = (accepted e req, Inr (minted e req now, []))"
proof (cases "req_price req")
  case None
  have nt: "\<not> is_trigger_type (req_type req)" by (simp add: fok is_trigger_type_def)
  show ?thesis
    using submit_order_no_match [OF nt, of e now] by (simp add: fok None)
next
  case (Some c)
  have nt: "\<not> is_trigger_type (req_type req)" by (simp add: fok is_trigger_type_def)
  have pre: "precheck_fok (accepted e req) (req_symbol req) (req_side req) (req_price req)
       (req_quantity req)
      = Inr (req_quantity req \<le> fok_liquidity book (req_side req) (req_price req))"
    using precheck_fok_liquidity [OF book pos inv rem, of c] by (simp add: Some)
  show ?thesis
    unfolding submit_order_def Let_def accepted_def [symmetric] minted_def [symmetric]
    using nt short by (simp add: book fok pre)
qed

lemma submit_fok_fill:
  assumes fok: "req_type req = fok" and pos: "0 < req_quantity req"
    and book: "dict_get (books (accepted e req)) (req_symbol req) = Some book"
    and inv: "side_inv (get_side_book book (opposite (req_side req)))"
    and rem: "list_all (\<lambda>od. 0 < remaining od)
                (level_orders (get_side_book book (opposite (req_side req))))"
    and enough: "req_quantity req \<le> fok_liquidity book (req_side req) (req_price req)"
  shows "submit_order e req now =
     (case record_trades_and_broadcast
             (set_book (accepted e req) (req_symbol req) (fst (fst (match book (minted e req now)))))
             (req_symbol req) now
             (fifo_fills (minted e req now) (makers (view (req_side req) book))) [] of
        (e', Inl err) \<Rightarrow> (e', Inl err)
      | (e', Inr trades) \<Rightarrow> (e', Inr ((minted e req now)\<lparr>remaining := 0\<rparr>, trades)))"
proof -
  let ?o = "minted e req now"
  define b' where "b' = fst (fst (match book ?o))"
  have nt: "\<not> is_trigger_type (req_type req)" by (simp add: fok is_trigger_type_def)
  from enough pos obtain c where Some: "req_price req = Some c"
    by (cases "req_price req") (auto simp: fok_liquidity_def liquidity_def within_limit_def)
  have pre: "precheck_fok (accepted e req) (req_symbol req) (req_side req) (req_price req)
       (req_quantity req) = Inr True"
    using precheck_fok_liquidity [OF book pos inv rem, of c] enough by (simp add: Some)
  have "match book ?o
           = ((fst (fst (match book ?o)), ?o\<lparr>remaining := 0\<rparr>),
              Inr (fifo_fills ?o (makers (view (req_side req) book))))"
    using fok_fills(1) [of ?o book] by (simp add: fok inv rem pos enough)
  then have m: "match book ?o
           = ((b', ?o\<lparr>remaining := 0\<rparr>),
              Inr (fifo_fills ?o (makers (view (req_side req) book))))"
    by (simp only: b'_def [symmetric])
  show ?thesis
    unfolding submit_order_def Let_def accepted_def [symmetric] minted_def [symmetric]
      b'_def [symmetric]
    using nt by (simp add: book fok pre m split: prod.splits sum.splits)
qed


section \<open>Scenarios\<close>

text \<open>Requests on one symbol, submitted at one clock reading.\<close>

definition request :: "Side \<Rightarrow> OrderType \<Rightarrow> decimal \<Rightarrow> decimal option \<Rightarrow> OrderRequest" where
  "request sd t qty p =
     \<lparr>req_symbol = ''BTC-USD'', req_side = sd, req_type = t, req_quantity = qty, req_price = p,
      req_client_order_id = None, req_stop_price = None, req_take_profit_price = None\<rparr>"

definition submit :: "MatchingEngine \<Rightarrow> OrderRequest \<Rightarrow> MatchingEngine" where
  "submit e r = fst (submit_order e r ''2024-01-01T00:00:00Z'')"

section \<open>Activation of a stop order that carries a price\<close>

text \<open>A resting ask of 1 at 60, then a buy stop of 2 with stop price 50 and limit price 100.\<close>

definition priced_stop_engine :: MatchingEngine where
  "priced_stop_engine =
     submit (submit new_engine (request sell limit 1 (Some 60)))
       ((request buy stop 2 (Some 100))\<lparr>req_stop_price := Some 50\<rparr>)"

text \<open>
  Claim C4. A pending stop order whose condition is met is removed from the triggers list
  and re-submitted; with a null price it becomes a market order, otherwise it becomes a
  limit order whose residual rests on the book at its price.

  The code converts only the stop without a price (to market) and the stop-limit (to limit).
  A stop that carries a price keeps the type \<open>stop\<close>: it is matched under its price, and
  since \<open>_submit_activated\<close> rests limit orders only, its residual is dropped. Here the ask
  at 60 meets the stop price 50, the order buys 1 at 60, and the remaining 1 neither rests
  on the bid side nor stays pending.
\<close>

theorem priced_stop_residual_dropped:
  "map (\<lambda>sb. (bids (snd sb), asks (snd sb), last_trade_price (snd sb)))
     (books (fst (process_triggers priced_stop_engine ''BTC-USD'' ''t1'')))
     = [([], [], Some 60)]
   \<and> triggers (fst (process_triggers priced_stop_engine ''BTC-USD'' ''t1'')) = [(''BTC-USD'', [])]
   \<and> snd (process_triggers priced_stop_engine ''BTC-USD'' ''t1'') = Inr ()"
  by code_simp

section \<open>Activation of a take-profit order\<close>

text \<open>A resting bid of 1 at 110, a resting ask of 1 at 120, then a sell take-profit of 1
  with take-profit price 100 and no limit price.\<close>

definition take_profit_engine :: MatchingEngine where
  "take_profit_engine =
     submit (submit (submit new_engine (request buy limit 1 (Some 110)))
               (request sell limit 1 (Some 120)))
       ((request sell take_profit 1 None)\<lparr>req_take_profit_price := Some 100\<rparr>)"

text \<open>
  Claim C5. A pending take-profit order whose condition is met is matched against the
  opposite side with market semantics: it fills at the best opposite prices while
  opposite liquidity remains.

  The code activates the order with its type unchanged, and \<open>_crossable\<close> treats every
  type but \<open>market\<close> as limit-like: with a null price nothing is crossable. Here the ask at
  120 meets the take-profit price 100 of the sell order and a bid of 1 rests at 110, yet
  activation trades nothing: the order leaves the triggers list and the rest of the engine
  is as before.
\<close>

theorem take_profit_activation_fills_nothing:
  "process_triggers take_profit_engine ''BTC-USD'' ''t1''
     = (take_profit_engine\<lparr>triggers := [(''BTC-USD'', [])]\<rparr>, Inr ())
   \<and> map (\<lambda>sb. map fst (bids (snd sb))) (books take_profit_engine) = [[110]]"
  by code_simp

section \<open>Cancel of a pending trigger order\<close>

definition pending_stop_engine :: MatchingEngine where
  "pending_stop_engine =
     submit new_engine ((request buy stop 1 None)\<lparr>req_stop_price := Some 120\<rparr>)"

text \<open>
  Claim C6. Cancelling an order that is pending in a triggers list removes it from the
  list and returns it; cancelling an id that is neither resting nor pending returns null.

  \<open>submit_order\<close> records a trigger order in \<open>order_symbol_index\<close>, so \<open>cancel_order\<close>
  finds a symbol for its id and asks the book, which does not hold it: the call returns
  null and the order stays pending. The scan of the trigger lists is reached only for ids
  the index does not know.
\<close>

theorem cancel_pending_trigger_returns_none:
  "map (\<lambda>st. map order_id (snd st)) (triggers pending_stop_engine) = [[''ord_1'']]
   \<and> cancel_order pending_stop_engine ''ord_1'' = (pending_stop_engine, Inr None)"
  by code_simp

section \<open>The symbol index after a fill\<close>

definition filled_maker_engine :: MatchingEngine where
  "filled_maker_engine =
     submit (submit new_engine (request sell limit 1 (Some 100))) (request buy market 1 None)"

text \<open>
  Claim C7. In every reachable engine state an order id is in \<open>order_symbol_index\<close> if and
  only if the order rests on exactly one price level or is pending in exactly one triggers
  list.

  \<open>OrderBook.match\<close> drops a filled maker from the book's own \<open>order_index\<close>, and only
  \<open>cancel_order\<close> ever removes an entry of the engine's \<open>order_symbol_index\<close>. After a
  sell limit of 1 at 100 is filled by a market buy of 1, the maker's id is still indexed
  although no order rests and none is pending.
\<close>

theorem filled_maker_stays_indexed:
  "dict_get (order_symbol_index filled_maker_engine) ''ord_1'' = Some ''BTC-USD''
   \<and> map (\<lambda>sb. book_orders (snd sb)) (books filled_maker_engine) = [[]]
   \<and> triggers filled_maker_engine = []"
  by code_simp

section \<open>Depth snapshot\<close>

definition one_ask_book :: OrderBook where
  "one_ask_book = snd (hd (books (submit new_engine (request sell limit 1 (Some 100)))))"

text \<open>
  Claim C8. For every depth \<open>\<ge> 0\<close>, \<open>snapshot_l2(depth)\<close> returns at most \<open>depth\<close>
  aggregated levels per side, bids descending and asks ascending, each quantity the level's
  summed remaining quantized to 8 places, levels of zero quantity skipped.

  The loop tests \<open>len(asks) >= depth\<close> after it has appended, so depth 0 yields one level
  where the claim allows none.
\<close>

theorem snapshot_l2_depth_zero:
  "asks one_ask_book \<noteq> [] \<and> snapshot_l2 one_ask_book 0 = Inr ([], [(100, 1)])"
  by code_simp

section \<open>Price-time priority of the matcher\<close>

text \<open>The book of \<open>tests/test_orderbook.py\<close>: asks of 2 at 100 and 3 at 101, and a
  market buy of 2.5.\<close>

definition two_ask_book :: OrderBook where
  "two_ask_book =
     snd (hd (books (submit (submit new_engine (request sell limit 2 (Some 100)))
                       (request sell limit 3 (Some 101)))))"

definition market_buy :: Order where
  "market_buy =
     \<lparr>order_id = ''b1'', symbol = ''BTC-USD'', side = buy, type = market, quantity = 5 / 2,
      remaining = 5 / 2, price = None, timestamp = ''2024-01-01T00:00:01Z'',
      client_order_id = None, stop_price = None, take_profit_price = None, user_id = None\<rparr>"

text \<open>
  Claim C1. Every fill of \<open>match\<close> executes at the price of the maker's level, the best
  opposite level, for the minimum of the two remaining quantities; makers are consumed in
  FIFO order within a level, best level first; a filled maker is popped and a level left
  empty is removed; \<open>last_trade_price\<close> is set to each execution price.

  On a well-formed opposite side \<open>match\<close> returns exactly \<open>fifo_fills\<close> of the makers in
  price-time order: its fills are, price and maker id, a prefix of that list; the side is
  left with the makers \<open>unfilled\<close> leaves, well formed and without a new empty level; the
  last trade price is that of the last fill; the index loses the filled makers; and the
  taker's remaining quantity drops by the filled quantity.
\<close>

theorem match_price_time_priority:
  assumes "side_inv (get_side_book b (opposite (side incoming)))"
  shows "snd (match b incoming) = Inr (fifo_fills incoming (makers (view (side incoming) b)))
    \<and> map fill_key (fifo_fills incoming (makers (view (side incoming) b)))
        = take (length (fifo_fills incoming (makers (view (side incoming) b))))
            (map maker_key (makers (view (side incoming) b)))
    \<and> makers (view (side incoming) (fst (fst (match b incoming))))
        = unfilled incoming (makers (view (side incoming) b))
    \<and> side_inv (get_side_book (fst (fst (match b incoming))) (opposite (side incoming)))
    \<and> (no_empty_level (view (side incoming) b) \<longrightarrow>
          no_empty_level (view (side incoming) (fst (fst (match b incoming)))))
    \<and> last_trade_price (fst (fst (match b incoming)))
        = last_price (last_trade_price b) (fifo_fills incoming (makers (view (side incoming) b)))
    \<and> order_index (fst (fst (match b incoming)))
        = filter (\<lambda>kv. fst kv \<notin> set (filled_ids (fifo_fills incoming (makers (view (side incoming) b)))))
            (order_index b)
    \<and> snd (fst (match b incoming))
        = incoming\<lparr>remaining := remaining incoming
            - filled_qty (fifo_fills incoming (makers (view (side incoming) b)))\<rparr>"
proof -
  from assms have inv: "view_inv (side incoming) (view (side incoming) b)"
    by (rule side_inv_view)
  note inv' = match_loop_inv [OF inv, of "[]"]
  from inv' have "side_inv (get_side_book (fst (fst (match_loop b incoming []))) (opposite (side incoming)))"
    by (simp add: view_inv_side)
  with match_loop_fills [OF inv, of "[]"] match_loop_unfilled [OF inv, of "[]"]
    match_loop_book [OF inv, of "[]"] match_loop_taker [OF inv, of "[]"] inv'
    fifo_fills_prefix [of incoming "makers (view (side incoming) b)"]
  show ?thesis unfolding match_def by simp
qed

theorem match_price_time_priority_witness:
  "side_inv (get_side_book two_ask_book (opposite (side market_buy)))
   \<and> snd (match two_ask_book market_buy)
       = Inr (fifo_fills market_buy (makers (view (side market_buy) two_ask_book)))
   \<and> map (\<lambda>f. (order_id (fst f), fst (snd (snd f)), snd (snd (snd f))))
        (fifo_fills market_buy (makers (view (side market_buy) two_ask_book)))
       = [(''ord_1'', 100, 2), (''ord_2'', 101, 1 / 2)]"
proof -
  have inv: "side_inv (get_side_book two_ask_book (opposite (side market_buy)))"
    by code_simp
  have fills: "map (\<lambda>f. (order_id (fst f), fst (snd (snd f)), snd (snd (snd f))))
        (fifo_fills market_buy (makers (view (side market_buy) two_ask_book)))
       = [(''ord_1'', 100, 2), (''ord_2'', 101, 1 / 2)]"
    by code_simp
  from match_price_time_priority [OF inv] inv fills show ?thesis by blast
qed

section \<open>Frame of the matcher\<close>

text \<open>
  Claim C10. \<open>OrderBook.match\<close> leaves the incoming order's own side of the book
  unchanged: only opposite-side levels, the \<open>order_index\<close> entries of fully filled
  opposite-side makers, the remaining quantities of the orders involved and
  \<open>last_trade_price\<close> are modified.

  For every book and incoming order, whatever the outcome: the taker's own side and the
  book symbol are as before; the taker changes in \<open>remaining\<close> only; every order on the
  opposite side afterwards is an order that was there before, up to \<open>remaining\<close>; and when
  \<open>match\<close> returns its trades, the index is the old one without the ids of the makers
  those trades record as filled, all of them ids of opposite-side orders.
\<close>

theorem match_frame:
  "get_side_book (fst (fst (match b incoming))) (side incoming) = get_side_book b (side incoming)
   \<and> book_symbol (fst (fst (match b incoming))) = book_symbol b
   \<and> same_but_remaining (snd (fst (match b incoming))) incoming
   \<and> orders_kept (get_side_book (fst (fst (match b incoming))) (opposite (side incoming)))
        (get_side_book b (opposite (side incoming)))
   \<and> (\<forall>trades. snd (match b incoming) = Inr trades \<longrightarrow>
         order_index (fst (fst (match b incoming)))
           = filter (\<lambda>kv. fst kv \<notin> set (filled_ids trades)) (order_index b)
         \<and> set (filled_ids trades)
             \<subseteq> order_id ` set (level_orders (get_side_book b (opposite (side incoming)))))"
proof -
  from match_loop_index [of b incoming "[]"]
  obtain new where new: "\<forall>ts. snd (match_loop b incoming []) = Inr ts \<longrightarrow> ts = new"
    "order_index (fst (fst (match_loop b incoming [])))
       = filter (\<lambda>kv. fst kv \<notin> set (filled_ids new)) (order_index b)"
    "set (filled_ids new)
       \<subseteq> order_id ` set (level_orders (get_side_book b (opposite (side incoming))))"
    by auto
  have "\<forall>trades. snd (match_loop b incoming []) = Inr trades \<longrightarrow>
         order_index (fst (fst (match_loop b incoming [])))
           = filter (\<lambda>kv. fst kv \<notin> set (filled_ids trades)) (order_index b)
         \<and> set (filled_ids trades)
             \<subseteq> order_id ` set (level_orders (get_side_book b (opposite (side incoming))))"
    using new by blast
  with match_loop_own_side [of b incoming "[]"] match_loop_orders_kept [of b incoming "[]"]
  show ?thesis unfolding match_def by blast
qed

theorem match_frame_witness:
  "snd (match two_ask_book market_buy)
     = Inr (fifo_fills market_buy (makers (view (side market_buy) two_ask_book)))
   \<and> bids (fst (fst (match two_ask_book market_buy))) = bids two_ask_book
   \<and> order_index (fst (fst (match two_ask_book market_buy)))
       = filter (\<lambda>kv. fst kv \<notin>
            set (filled_ids (fifo_fills market_buy (makers (view (side market_buy) two_ask_book)))))
           (order_index two_ask_book)
   \<and> filled_ids (fifo_fills market_buy (makers (view (side market_buy) two_ask_book)))
       = [''ord_1'']"
proof -
  have res: "snd (match two_ask_book market_buy)
     = Inr (fifo_fills market_buy (makers (view (side market_buy) two_ask_book)))"
    by code_simp
  have ids: "filled_ids (fifo_fills market_buy (makers (view (side market_buy) two_ask_book)))
       = [''ord_1'']"
    by code_simp
  have sd: "side market_buy = buy" by (simp add: market_buy_def)
  from match_frame [of two_ask_book market_buy] res ids show ?thesis
    by (simp add: sd get_side_book_def)
qed

section \<open>Requests the specification calls invalid\<close>

text \<open>
  Claim C2. A submit with non-positive quantity, with a null price for a limit or
  stop-limit, with a null stop price for a stop or stop-limit, or with a null take-profit
  price for a take-profit, gets a validation error and changes no engine state.

  The engine does not validate. A limit order of quantity 0 is accepted and returned with
  no trades, and a stop order without a stop price is accepted and enqueued.
\<close>

theorem submit_invalid_request_accepted:
  "snd (submit_order new_engine (request buy limit 0 (Some 100)) ''t0'')
     = Inr (make_order ''ord_1'' (request buy limit 0 (Some 100)) ''t0'', [])
   \<and> snd (submit_order new_engine (request buy stop 1 None) ''t0'')
     = Inr (make_order ''ord_1'' (request buy stop 1 None) ''t0'', [])
   \<and> triggers (fst (submit_order new_engine (request buy stop 1 None) ''t0''))
     = [(''BTC-USD'', [make_order ''ord_1'' (request buy stop 1 None) ''t0''])]
   \<and> req_stop_price (request buy stop 1 None) = None"
  by code_simp

text \<open>
  Claim C2, amended. \<open>submit_order\<close> creates the book of the symbol if it is missing and
  mints the order id (\<open>accepted\<close>), which leaves every existing book, the trigger lists,
  the symbol index and the recent trades as they were. Then: a request of type market,
  limit, ioc or fok with non-positive quantity is returned as an accepted order with no
  trades and no further change; a limit request with positive quantity and null price
  fails with the \<open>AssertionError\<close> of \<open>add_limit\<close>, with no further change; a stop,
  stop-limit or take-profit request is accepted whatever its quantity and prices, appended
  to the trigger list of its symbol and entered in the symbol index.
\<close>

theorem submit_order_unvalidated:
  "triggers (accepted e req) = triggers e
   \<and> order_symbol_index (accepted e req) = order_symbol_index e
   \<and> recent_trades (accepted e req) = recent_trades e
   \<and> books (accepted e req)
       = (if dict_get (books e) (req_symbol req) = None
          then dict_set (books e) (req_symbol req) (new_book (req_symbol req)) else books e)
   \<and> (\<not> is_trigger_type (req_type req) \<and> req_quantity req \<le> 0 \<longrightarrow>
         submit_order e req now = (accepted e req, Inr (minted e req now, [])))
   \<and> (req_type req = limit \<and> 0 < req_quantity req \<and> req_price req = None \<longrightarrow>
         submit_order e req now = (accepted e req, Inl AssertionError))
   \<and> (is_trigger_type (req_type req) \<longrightarrow>
         submit_order e req now =
           ((accepted e req)
              \<lparr>triggers := dict_set (triggers (accepted e req)) (req_symbol req)
                  (dd_get (triggers (accepted e req)) (req_symbol req) @ [minted e req now]),
               order_symbol_index := dict_set (order_symbol_index (accepted e req))
                  (order_id (minted e req now)) (req_symbol req)\<rparr>,
            Inr (minted e req now, [])))"
proof -
  have frame: "triggers (accepted e req) = triggers e
     \<and> order_symbol_index (accepted e req) = order_symbol_index e
     \<and> recent_trades (accepted e req) = recent_trades e
     \<and> books (accepted e req)
       = (if dict_get (books e) (req_symbol req) = None
          then dict_set (books e) (req_symbol req) (new_book (req_symbol req)) else books e)"
    by (simp add: accepted_def ensure_book_def)
  have a: "submit_order e req now = (accepted e req, Inr (minted e req now, []))"
    if "\<not> is_trigger_type (req_type req)" "req_quantity req \<le> 0"
    using submit_order_no_match [of req e now] that by simp
  have b: "submit_order e req now = (accepted e req, Inl AssertionError)"
    if "req_type req = limit" "0 < req_quantity req" "req_price req = None"
    using submit_order_no_match [of req e now] that by (simp add: is_trigger_type_def)
  from frame a b submit_order_trigger [of req e now] show ?thesis by blast
qed

theorem submit_order_unvalidated_witness:
  "submit_order new_engine (request buy limit 0 (Some 100)) ''t0''
     = (accepted new_engine (request buy limit 0 (Some 100)),
        Inr (minted new_engine (request buy limit 0 (Some 100)) ''t0'', []))
   \<and> submit_order new_engine (request buy limit 1 None) ''t0''
     = (accepted new_engine (request buy limit 1 None), Inl AssertionError)
   \<and> snd (submit_order new_engine (request sell take_profit 1 None) ''t0'')
     = Inr (minted new_engine (request sell take_profit 1 None) ''t0'', [])"
proof -
  have h1: "\<not> is_trigger_type (req_type (request buy limit 0 (Some 100)))
            \<and> req_quantity (request buy limit 0 (Some 100)) \<le> 0"
    by (simp add: request_def is_trigger_type_def)
  have h2: "req_type (request buy limit 1 None) = limit \<and> 0 < req_quantity (request buy limit 1 None)
            \<and> req_price (request buy limit 1 None) = None"
    by (simp add: request_def)
  have h3: "is_trigger_type (req_type (request sell take_profit 1 None))"
    by (simp add: request_def is_trigger_type_def)
  from submit_order_unvalidated [where e = new_engine and now = "''t0''"
      and req = "request buy limit 0 (Some 100)"] h1
  have 1: "submit_order new_engine (request buy limit 0 (Some 100)) ''t0''
     = (accepted new_engine (request buy limit 0 (Some 100)),
        Inr (minted new_engine (request buy limit 0 (Some 100)) ''t0'', []))" by blast
  from submit_order_unvalidated [where e = new_engine and now = "''t0''"
      and req = "request buy limit 1 None"] h2
  have 2: "submit_order new_engine (request buy limit 1 None) ''t0''
     = (accepted new_engine (request buy limit 1 None), Inl AssertionError)" by blast
  from submit_order_unvalidated [where e = new_engine and now = "''t0''"
      and req = "request sell take_profit 1 None"] h3
  have 3: "snd (submit_order new_engine (request sell take_profit 1 None) ''t0'')
     = Inr (minted new_engine (request sell take_profit 1 None) ''t0'', [])" by simp
  from 1 2 3 show ?thesis by blast
qed

section \<open>Persistence of pending orders\<close>

text \<open>A resting ask of 1 at 100 and a pending buy stop of 1 with stop price 120; and
  the same after a market buy of 1 against an ask of 2 has printed a trade.\<close>

definition resting_and_pending_engine :: MatchingEngine where
  "resting_and_pending_engine =
     submit (submit new_engine (request sell limit 1 (Some 100)))
       ((request buy stop 1 None)\<lparr>req_stop_price := Some 120\<rparr>)"

definition traded_and_pending_engine :: MatchingEngine where
  "traded_and_pending_engine =
     submit (submit (submit new_engine (request sell limit 2 (Some 100)))
               (request buy market 1 None))
       ((request buy stop 1 None)\<lparr>req_stop_price := Some 120\<rparr>)"




section \<open>Fill-or-kill\<close>

text \<open>The book of \<open>tests/test_orderbook.py\<close> held by an engine, and an engine with
  one resting ask of \<open>10 ^ 20\<close> at 100.\<close>

definition two_ask_engine :: MatchingEngine where
  "two_ask_engine =
     submit (submit new_engine (request sell limit 2 (Some 100))) (request sell limit 3 (Some 101))"

definition big_ask_engine :: MatchingEngine where
  "big_ask_engine = submit new_engine (request sell limit (10 ^ 20) (Some 100))"

definition big_ask_book :: OrderBook where
  "big_ask_book = snd (hd (books big_ask_engine))"





end
